theory Spec2Isabelle
  imports Complex_Main "HOL-Library.Word"
begin

unbundle bit_operations_syntax

section \<open>Data model\<close>

text \<open>
  Go's \<open>uint32\<close> and \<open>uint64\<close> are words; \<open>uint\<close> is the 64-bit word of the 64-bit
  platforms, so \<open>12 - chars\<close> and \<open>64 - bits\<close> wrap around as they do there. A finite
  \<open>float64\<close> is the real number it denotes; the arithmetic on it rounds, as set out in the
  next section.
\<close>

type_synonym uint32 = "32 word"
type_synonym uint64 = "64 word"
type_synonym uint = "64 word"
type_synonym float64 = real

section \<open>Floating-point arithmetic\<close>

text \<open>
  A float64 is \<open>k * 2 ^ e\<close> with \<open>\<bar>k\<bar> < 2 ^ 53\<close> and \<open>e \<ge> - 1074\<close>. The exponent of a real
  \<open>x\<close> is that of its binade, \<open>\<lfloor>log\<^sub>2 \<bar>x\<bar>\<rfloor>\<close>, and not below \<open>- 1022\<close>, where the subnormal
  numbers begin; the unit in the last place of \<open>x\<close> is \<open>2 ^ (exponent - 52)\<close>.
\<close>

definition float_exponent :: "real \<Rightarrow> int" where
  "float_exponent x = max \<lfloor>log 2 \<bar>x\<bar>\<rfloor> (- 1022)"

text \<open>Rounding to the nearest integer, a tie going to the even one.\<close>

definition round_half_even :: "real \<Rightarrow> int" where
  "round_half_even t =
    (let f = \<lfloor>t\<rfloor>; d = t - of_int f
     in if d < 1 / 2 then f else if 1 / 2 < d then f + 1 else if even f then f else f + 1)"

text \<open>
  \<open>fl x\<close> is the float64 nearest to \<open>x\<close>, the rounding of IEEE 754 that Go's arithmetic
  uses. Overflow to an infinity, the infinities and NaN are outside the model: every
  value below stays far from the largest float64.
\<close>

definition fl :: "real \<Rightarrow> float64" where
  "fl x =
    (if x = 0 then 0
     else let u = 2 powi (float_exponent x - 52)
          in of_int (round_half_even (x / u)) * u)"

text \<open>
  The operators \<open>+\<close>, \<open>-\<close>, \<open>*\<close> and \<open>/\<close> on float64: the exact result, rounded. Each
  operation of the source is rounded on its own, as the compiler for amd64 does; one
  that fuses \<open>x * y + z\<close> rounds \<open>2 * r * p - r\<close> of \<open>decodeRange\<close> once instead of twice.
\<close>

definition fadd :: "float64 \<Rightarrow> float64 \<Rightarrow> float64" where
  "fadd a b = fl (a + b)"

definition fsub :: "float64 \<Rightarrow> float64 \<Rightarrow> float64" where
  "fsub a b = fl (a - b)"

definition fmul :: "float64 \<Rightarrow> float64 \<Rightarrow> float64" where
  "fmul a b = fl (a * b)"

definition fdiv :: "float64 \<Rightarrow> float64 \<Rightarrow> float64" where
  "fdiv a b = fl (a / b)"

text \<open>
  The functions of package \<open>math\<close> that geohash.go calls. \<open>Ldexp f e\<close> is
  \<open>f * 2 ^ e\<close>, and \<open>Ceil\<close> and \<open>Floor\<close> return an integer, itself a float64.
\<close>

definition Ldexp :: "float64 \<Rightarrow> int \<Rightarrow> float64" where
  "Ldexp f e = fl (f * 2 powi e)"

definition Ceil :: "float64 \<Rightarrow> float64" where
  "Ceil x = of_int \<lceil>x\<rceil>"

definition Floor :: "float64 \<Rightarrow> float64" where
  "Floor x = of_int \<lfloor>x\<rfloor>"

text \<open>
  \<open>Pow10 n\<close> for \<open>\<bar>n\<bar> < 32\<close>, where the library reads a table: the entry \<open>1eN\<close>, the
  float64 nearest to \<open>10 ^ N\<close>, for \<open>n = N \<ge> 0\<close>, and the quotient \<open>1 / 1eN\<close> for \<open>n = - N\<close>.
  The widths of the boxes, from \<open>180 / 2 ^ 32\<close> to 360, call it with \<open>n\<close> from \<open>- 8\<close> to 2.
\<close>

definition Pow10 :: "int \<Rightarrow> float64" where
  "Pow10 n = (if 0 \<le> n then fl (10 ^ nat n) else fdiv 1 (fl (10 ^ nat (- n))))"

text \<open>
  \<open>Log10\<close> is the real logarithm: the library's result carries a rounding error, which
  changes \<open>Floor (Log10 r)\<close> only for \<open>r\<close> next to a power of ten. The widths of the boxes,
  \<open>180 / 2 ^ n\<close> and \<open>360 / 2 ^ n\<close>, have a logarithm at least 0.03 away from every integer.
\<close>

definition Log10 :: "float64 \<Rightarrow> real" where
  "Log10 x = log 10 x"

section \<open>Bit interleaver\<close>

text \<open>\<open>spread\<close>: the 32 bits of \<open>x\<close> go to the even bit positions of a 64-bit word.\<close>

definition spread :: "uint32 \<Rightarrow> uint64" where
  "spread x =
    (let X = ucast x;
         X = (X OR push_bit 16 X) AND 0x0000ffff0000ffff;
         X = (X OR push_bit 8 X) AND 0x00ff00ff00ff00ff;
         X = (X OR push_bit 4 X) AND 0x0f0f0f0f0f0f0f0f;
         X = (X OR push_bit 2 X) AND 0x3333333333333333;
         X = (X OR push_bit 1 X) AND 0x5555555555555555
     in X)"

definition interleave :: "uint32 \<Rightarrow> uint32 \<Rightarrow> uint64" where
  "interleave x y = spread x OR push_bit 1 (spread y)"

text \<open>\<open>squash\<close>: the even bit positions of \<open>X\<close>, collected into a 32-bit word.\<close>

definition squash :: "uint64 \<Rightarrow> uint32" where
  "squash X0 =
    (let X = X0 AND 0x5555555555555555;
         X = (X OR drop_bit 1 X) AND 0x3333333333333333;
         X = (X OR drop_bit 2 X) AND 0x0f0f0f0f0f0f0f0f;
         X = (X OR drop_bit 4 X) AND 0x00ff00ff00ff00ff;
         X = (X OR drop_bit 8 X) AND 0x0000ffff0000ffff;
         X = (X OR drop_bit 16 X) AND 0x00000000ffffffff
     in ucast X)"

definition deinterleave :: "uint64 \<Rightarrow> uint32 \<times> uint32" where
  "deinterleave X = (squash X, squash (drop_bit 1 X))"

section \<open>Range codec\<close>

text \<open>
  \<open>uint32(v)\<close> on a float64 drops the fraction (rounds toward zero). For a value that
  does not fit in 32 bits Go leaves the result to the implementation; the model keeps
  it modulo \<open>2 ^ 32\<close>, the wrap-around that the specification describes for \<open>x = r\<close>. The
  conversion \<open>float64(X)\<close> of a 32-bit integer is exact.
\<close>

definition uint32_of_float64 :: "float64 \<Rightarrow> uint32" where
  "uint32_of_float64 v = word_of_int (if 0 \<le> v then \<lfloor>v\<rfloor> else \<lceil>v\<rceil>)"

definition float64_of_uint32 :: "uint32 \<Rightarrow> float64" where
  "float64_of_uint32 X = real (unat X)"

definition exp232 :: float64 where
  "exp232 = 2 ^ 32"

definition encodeRange :: "float64 \<Rightarrow> float64 \<Rightarrow> uint32" where
  "encodeRange x r =
    (let p = fdiv (fadd x r) (fmul 2 r) in uint32_of_float64 (fmul p exp232))"

definition decodeRange :: "uint32 \<Rightarrow> float64 \<Rightarrow> float64" where
  "decodeRange X r =
    (let p = fdiv (float64_of_uint32 X) exp232;
         x = fsub (fmul (fmul 2 r) p) r
     in x)"

section \<open>Integer geohash\<close>

definition encodeInt :: "float64 \<Rightarrow> float64 \<Rightarrow> uint64" where
  "encodeInt lat lng =
    (let latInt = encodeRange lat 90;
         lngInt = encodeRange lng 180
     in interleave latInt lngInt)"

text \<open>
  \<open>EncodeInt\<close> is declared without a body in geohash.go; \<open>encodeInt\<close> is, by its
  comment, the default implementation, and it is the one modelled.
\<close>

definition EncodeInt :: "float64 \<Rightarrow> float64 \<Rightarrow> uint64" where
  "EncodeInt lat lng = encodeInt lat lng"

text \<open>
  Go's \<open>hash >> n\<close> and \<open>hash << n\<close> with \<open>n\<close> of 64 or more are 0, as \<open>drop_bit\<close> and
  \<open>push_bit\<close> on a 64-bit word are; \<open>64 - bits\<close> is unsigned and wraps.
\<close>

definition EncodeIntWithPrecision :: "float64 \<Rightarrow> float64 \<Rightarrow> uint \<Rightarrow> uint64" where
  "EncodeIntWithPrecision lat lng bits =
    (let hash = EncodeInt lat lng in drop_bit (unat (64 - bits)) hash)"

section \<open>Boxes\<close>

record Box =
  MinLat :: float64
  MaxLat :: float64
  MinLng :: float64
  MaxLng :: float64

definition Center :: "Box \<Rightarrow> float64 \<times> float64" where
  "Center b = (fdiv (fadd (MinLat b) (MaxLat b)) 2, fdiv (fadd (MinLng b) (MaxLng b)) 2)"

definition Contains :: "Box \<Rightarrow> float64 \<Rightarrow> float64 \<Rightarrow> bool" where
  "Contains b lat lng =
    (MinLat b \<le> lat \<and> lat \<le> MaxLat b \<and> MinLng b \<le> lng \<and> lng \<le> MaxLng b)"

text \<open>
  \<open>math.Pow10(int(math.Floor(math.Log10(r))))\<close>, for a width \<open>r > 0\<close>; \<open>int(v)\<close> drops the
  fraction of \<open>v\<close>.
\<close>

definition int_of_float64 :: "float64 \<Rightarrow> int" where
  "int_of_float64 v = (if 0 \<le> v then \<lfloor>v\<rfloor> else \<lceil>v\<rceil>)"

definition maxDecimalPower :: "float64 \<Rightarrow> float64" where
  "maxDecimalPower r = (let m = int_of_float64 (Floor (Log10 r)) in Pow10 m)"

definition Round :: "Box \<Rightarrow> float64 \<times> float64" where
  "Round b =
    (let x = maxDecimalPower (fsub (MaxLat b) (MinLat b));
         lat = fmul (Ceil (fdiv (MinLat b) x)) x;
         x = maxDecimalPower (fsub (MaxLng b) (MinLng b));
         lng = fmul (Ceil (fdiv (MinLng b) x)) x
     in (lat, lng))"

text \<open>Go's integer division rounds toward zero.\<close>

definition go_quot :: "int \<Rightarrow> int \<Rightarrow> int" where
  "go_quot a b = sgn a * sgn b * (\<bar>a\<bar> div \<bar>b\<bar>)"

text \<open>\<open>int(bits)\<close> reads the word as two's complement.\<close>

definition errorWithPrecision :: "uint \<Rightarrow> float64 \<times> float64" where
  "errorWithPrecision bits =
    (let b = sint bits;
         latBits = go_quot b 2;
         lngBits = b - latBits;
         latErr = Ldexp 180 (- latBits);
         lngErr = Ldexp 360 (- lngBits)
     in (latErr, lngErr))"

definition BoundingBoxIntWithPrecision :: "uint64 \<Rightarrow> uint \<Rightarrow> Box" where
  "BoundingBoxIntWithPrecision hash bits =
    (let fullHash = push_bit (unat (64 - bits)) hash;
         (latInt, lngInt) = deinterleave fullHash;
         lat = decodeRange latInt 90;
         lng = decodeRange lngInt 180;
         (latErr, lngErr) = errorWithPrecision bits
     in \<lparr>MinLat = lat, MaxLat = fadd lat latErr, MinLng = lng, MaxLng = fadd lng lngErr\<rparr>)"

definition BoundingBoxInt :: "uint64 \<Rightarrow> Box" where
  "BoundingBoxInt hash = BoundingBoxIntWithPrecision hash 64"

section \<open>Base-32 alphabet codec\<close>

text \<open>
  The file that defines \<open>base32encoding\<close> is not among the sources; geohash.go only
  calls its \<open>Encode\<close>, \<open>Decode\<close> and \<open>ValidByte\<close>. Section 4.3 of the specification gives
  the alphabet, the value of a symbol and the order of the symbols, the most significant
  first. For the place of the symbols in the 64-bit word it contradicts itself and the
  sources: it has the twelve symbols cover bits 63 down to 4 and a short string decode
  to the top of the word, where section 8 requires \<open>ConvertStringToInt H\<close> to be the
  integer hash shifted right by \<open>64 - 5 * length H\<close>, as \<open>TestConvertStringToInt\<close> does.
  In geohash.go, \<open>EncodeWithPrecision\<close> hands \<open>Encode\<close> the hash shifted right by
  \<open>64 - bits\<close> and keeps the last \<open>chars\<close> symbols, and \<open>BoundingBox\<close> shifts what \<open>Decode\<close>
  returns left by \<open>64 - bits\<close>. The model therefore takes the symbols right-aligned: the last
  symbol is the five low-order bits.
\<close>

text \<open>
  Modelled from the spec: the alphabet table of the absent base-32 codec, "digits 0-9
  then lowercase letters, excluding a, i, l, o"; a symbol stands for its index.
\<close>

definition alphabet :: string where
  "alphabet = ''0123456789bcdefghjkmnpqrstuvwxyz''"

text \<open>
  Modelled from the spec: \<open>base32encoding.Encode\<close>, absent from the sources. "12
  consecutive 5-bit groups read MSB-first; each group is mapped to its alphabet
  symbol". The groups are those of the low 60 bits, as geohash.go needs them: symbol \<open>i\<close>
  is bits \<open>5 * (11 - i) + 4\<close> down to \<open>5 * (11 - i)\<close>, and the four bits above them are not
  read. The sentence of section 4.3 that puts the groups in bits 63 down to 4 is not
  followed.
\<close>

definition base32encoding_Encode :: "uint64 \<Rightarrow> string" where
  "base32encoding_Encode x =
    map (\<lambda>i. alphabet ! unat (take_bit 5 (drop_bit (5 * (11 - i)) x))) [0..<12]"

fun position :: "char \<Rightarrow> string \<Rightarrow> nat option" where
  "position c [] = None"
| "position c (a # as) = (if c = a then Some 0 else map_option Suc (position c as))"

text \<open>
  Modelled from the spec: the 5-bit value of a symbol, its index in the alphabet. The
  specification gives a byte outside the alphabet no value; it counts as 0 here.
\<close>

definition symbol_value :: "char \<Rightarrow> uint64" where
  "symbol_value c = (case position c alphabet of Some i \<Rightarrow> of_nat i | None \<Rightarrow> 0)"

text \<open>
  Modelled from the spec: \<open>base32encoding.Decode\<close>, absent from the sources. "Inverse
  mapping, symbol to 5-bit value, concatenated MSB-first": each symbol in turn shifts
  the value left by five bits and fills the five low-order bits, so that the string is
  right-aligned in the word, as geohash.go needs it. The sentence of section 4.3 that
  gives a short string zero low-order bits is not followed.
\<close>

definition base32encoding_Decode :: "string \<Rightarrow> uint64" where
  "base32encoding_Decode s = foldl (\<lambda>x c. push_bit 5 x OR symbol_value c) 0 s"

text \<open>
  Modelled from the spec: \<open>base32encoding.ValidByte\<close>, absent from the sources. "True
  iff b is one of the 32 alphabet symbols".
\<close>

definition base32encoding_ValidByte :: "char \<Rightarrow> bool" where
  "base32encoding_ValidByte b = (b \<in> set alphabet)"

section \<open>String geohash\<close>

text \<open>
  A slice expression \<open>s[lo:]\<close> panics when \<open>lo\<close> exceeds the length of \<open>s\<close>; the panic is
  a value of the model.
\<close>

datatype panic = SliceBoundsOutOfRange

definition slice_from :: "string \<Rightarrow> uint \<Rightarrow> panic + string" where
  "slice_from s lo =
    (if unat lo \<le> length s then Inr (drop (unat lo) s) else Inl SliceBoundsOutOfRange)"

definition EncodeWithPrecision :: "float64 \<Rightarrow> float64 \<Rightarrow> uint \<Rightarrow> panic + string" where
  "EncodeWithPrecision lat lng chars =
    (let bits = 5 * chars;
         inthash = EncodeIntWithPrecision lat lng bits;
         enc = base32encoding_Encode inthash
     in slice_from enc (12 - chars))"

definition Encode :: "float64 \<Rightarrow> float64 \<Rightarrow> panic + string" where
  "Encode lat lng = EncodeWithPrecision lat lng 12"

definition BoundingBox :: "string \<Rightarrow> Box" where
  "BoundingBox hash =
    (let bits = of_nat (5 * length hash);
         inthash = base32encoding_Decode hash
     in BoundingBoxIntWithPrecision inthash bits)"

definition Decode :: "string \<Rightarrow> float64 \<times> float64" where
  "Decode hash = (let box = BoundingBox hash in Round box)"

definition DecodeCenter :: "string \<Rightarrow> float64 \<times> float64" where
  "DecodeCenter hash = (let box = BoundingBox hash in Center box)"

definition ConvertStringToInt :: "string \<Rightarrow> uint64 \<times> uint" where
  "ConvertStringToInt hash = (base32encoding_Decode hash, of_nat (5 * length hash))"

definition ConvertIntToString :: "uint64 \<Rightarrow> uint \<Rightarrow> panic + string" where
  "ConvertIntToString hash chars =
    (let enc = base32encoding_Encode hash in slice_from enc (12 - chars))"

section \<open>Validation\<close>

datatype error = TooLong | InvalidCharacter char

text \<open>The loop over the bytes of the hash: the first invalid byte ends it.\<close>

fun check_characters :: "string \<Rightarrow> error option" where
  "check_characters [] = None"
| "check_characters (c # cs) =
    (if \<not> base32encoding_ValidByte c then Some (InvalidCharacter c) else check_characters cs)"

definition Validate :: "string \<Rightarrow> error option" where
  "Validate hash = (if 5 * length hash > 64 then Some TooLong else check_characters hash)"

section \<open>The bits of \<open>spread\<close> and \<open>squash\<close>\<close>

lemma below_64_cases:
  "n < 64 \<Longrightarrow> n \<in> {63, 62, 61, 60, 59, 58, 57, 56, 55, 54, 53, 52, 51, 50, 49, 48,
     47, 46, 45, 44, 43, 42, 41, 40, 39, 38, 37, 36, 35, 34, 33, 32, 31, 30, 29, 28, 27, 26,
     25, 24, 23, 22, 21, 20, 19, 18, 17, 16, 15, 14, 13, 12, 11, 10, 9, 8, 7, 6, 5, 4, 3, 2,
     1, 0::nat}"
  by (simp only: insert_iff empty_iff) arith

lemma bit_ucast_32_64:
  "bit (ucast (x :: uint32) :: uint64) n = (n < 32 \<and> bit x n)"
  by (auto simp: bit_ucast_iff dest: bit_imp_le_length)

lemma bit_ucast_64_32:
  "bit (ucast (X :: uint64) :: uint32) n = (n < 32 \<and> bit X n)"
  by (auto simp: bit_ucast_iff dest: bit_imp_le_length)

text \<open>One rung of the ladder of \<open>spread\<close>, bit by bit.\<close>

lemma spread_step:
  "bit (((X :: uint64) OR push_bit j X) AND m) n
    = (bit m n \<and> (bit X n \<or> (j \<le> n \<and> n < 64 \<and> bit X (n - j))))"
  by (simp only: bit_and_iff bit_or_iff bit_push_bit_iff) auto

text \<open>
  After the rung that shifts by \<open>g\<close>, the word holds groups of \<open>g\<close> bits of \<open>x\<close>, each
  followed by \<open>g\<close> zeros.
\<close>

lemma spread_stage16:
  fixes x :: uint32 and X :: uint64
  assumes X: "\<And>n. bit X n = (n < 32 \<and> bit x n)"
  shows "bit ((X OR push_bit 16 X) AND 0x0000ffff0000ffff) n
    = (n < 64 \<and> n mod 32 < 16 \<and> bit x (16 * (n div 32) + n mod 32))"
proof (cases "n < 64")
  case True
  from below_64_cases [OF this] show ?thesis
    unfolding spread_step
    by (elim insertE emptyE; simp add: X numeral_2_eq_2 [symmetric])
next
  case False
  then show ?thesis
    unfolding spread_step by simp
qed

lemma spread_stage8:
  fixes x :: uint32 and X :: uint64
  assumes X: "\<And>n. bit X n = (n < 64 \<and> n mod 32 < 16 \<and> bit x (16 * (n div 32) + n mod 32))"
  shows "bit ((X OR push_bit 8 X) AND 0x00ff00ff00ff00ff) n
    = (n < 64 \<and> n mod 16 < 8 \<and> bit x (8 * (n div 16) + n mod 16))"
proof (cases "n < 64")
  case True
  from below_64_cases [OF this] show ?thesis
    unfolding spread_step
    by (elim insertE emptyE; simp add: X numeral_2_eq_2 [symmetric])
next
  case False
  then show ?thesis
    unfolding spread_step by simp
qed

lemma spread_stage4:
  fixes x :: uint32 and X :: uint64
  assumes X: "\<And>n. bit X n = (n < 64 \<and> n mod 16 < 8 \<and> bit x (8 * (n div 16) + n mod 16))"
  shows "bit ((X OR push_bit 4 X) AND 0x0f0f0f0f0f0f0f0f) n
    = (n < 64 \<and> n mod 8 < 4 \<and> bit x (4 * (n div 8) + n mod 8))"
proof (cases "n < 64")
  case True
  from below_64_cases [OF this] show ?thesis
    unfolding spread_step
    by (elim insertE emptyE; simp add: X numeral_2_eq_2 [symmetric])
next
  case False
  then show ?thesis
    unfolding spread_step by simp
qed

lemma spread_stage2:
  fixes x :: uint32 and X :: uint64
  assumes X: "\<And>n. bit X n = (n < 64 \<and> n mod 8 < 4 \<and> bit x (4 * (n div 8) + n mod 8))"
  shows "bit ((X OR push_bit 2 X) AND 0x3333333333333333) n
    = (n < 64 \<and> n mod 4 < 2 \<and> bit x (2 * (n div 4) + n mod 4))"
proof (cases "n < 64")
  case True
  from below_64_cases [OF this] show ?thesis
    unfolding spread_step
    by (elim insertE emptyE; simp add: X numeral_2_eq_2 [symmetric])
next
  case False
  then show ?thesis
    unfolding spread_step by simp
qed

lemma spread_stage1:
  fixes x :: uint32 and X :: uint64
  assumes X: "\<And>n. bit X n = (n < 64 \<and> n mod 4 < 2 \<and> bit x (2 * (n div 4) + n mod 4))"
  shows "bit ((X OR push_bit 1 X) AND 0x5555555555555555) n
    = (n < 64 \<and> even n \<and> bit x (n div 2))"
proof (cases "n < 64")
  case True
  from below_64_cases [OF this] show ?thesis
    unfolding spread_step
    by (elim insertE emptyE; simp add: X numeral_2_eq_2 [symmetric])
next
  case False
  then show ?thesis
    unfolding spread_step by simp
qed

lemma bit_spread: "bit (spread x) n = (even n \<and> bit x (n div 2))"
proof -
  have "bit (spread x) n = (n < 64 \<and> even n \<and> bit x (n div 2))"
    unfolding spread_def Let_def
    by (intro spread_stage1 spread_stage2 spread_stage4 spread_stage8 spread_stage16
        bit_ucast_32_64)
  moreover have "n < 64" if "bit x (n div 2)"
    using bit_imp_le_length [OF that] by simp
  ultimately show ?thesis by blast
qed

text \<open>One rung of the ladder of \<open>squash\<close>, and the groups it leaves.\<close>

lemma squash_step:
  "bit (((X :: uint64) OR drop_bit j X) AND m) n = (bit m n \<and> (bit X n \<or> bit X (j + n)))"
  by (simp only: bit_and_iff bit_or_iff bit_drop_bit_eq comp_def) auto

lemma squash_stage0:
  "bit ((X0 :: uint64) AND 0x5555555555555555) n = (n < 64 \<and> even n \<and> bit X0 n)"
proof (cases "n < 64")
  case True
  from below_64_cases [OF this] show ?thesis
    unfolding bit_and_iff by (elim insertE emptyE; simp)
next
  case False
  then show ?thesis by (auto simp: bit_and_iff dest: bit_imp_le_length)
qed

lemma squash_stage1:
  fixes X0 X :: uint64
  assumes X: "\<And>n. bit X n = (n < 64 \<and> even n \<and> bit X0 n)"
  shows "bit ((X OR drop_bit 1 X) AND 0x3333333333333333) n
    = (n < 64 \<and> n mod 4 < 2 \<and> bit X0 (2 * (2 * (n div 4) + n mod 4)))"
proof (cases "n < 64")
  case True
  from below_64_cases [OF this] show ?thesis
    unfolding squash_step
    by (elim insertE emptyE; simp add: X numeral_2_eq_2 [symmetric])
next
  case False
  then show ?thesis
    unfolding squash_step by simp
qed

lemma squash_stage2:
  fixes X0 X :: uint64
  assumes X: "\<And>n. bit X n = (n < 64 \<and> n mod 4 < 2 \<and> bit X0 (2 * (2 * (n div 4) + n mod 4)))"
  shows "bit ((X OR drop_bit 2 X) AND 0x0f0f0f0f0f0f0f0f) n
    = (n < 64 \<and> n mod 8 < 4 \<and> bit X0 (2 * (4 * (n div 8) + n mod 8)))"
proof (cases "n < 64")
  case True
  from below_64_cases [OF this] show ?thesis
    unfolding squash_step
    by (elim insertE emptyE; simp add: X numeral_2_eq_2 [symmetric])
next
  case False
  then show ?thesis
    unfolding squash_step by simp
qed

lemma squash_stage4:
  fixes X0 X :: uint64
  assumes X: "\<And>n. bit X n = (n < 64 \<and> n mod 8 < 4 \<and> bit X0 (2 * (4 * (n div 8) + n mod 8)))"
  shows "bit ((X OR drop_bit 4 X) AND 0x00ff00ff00ff00ff) n
    = (n < 64 \<and> n mod 16 < 8 \<and> bit X0 (2 * (8 * (n div 16) + n mod 16)))"
proof (cases "n < 64")
  case True
  from below_64_cases [OF this] show ?thesis
    unfolding squash_step
    by (elim insertE emptyE; simp add: X numeral_2_eq_2 [symmetric])
next
  case False
  then show ?thesis
    unfolding squash_step by simp
qed

lemma squash_stage8:
  fixes X0 X :: uint64
  assumes X: "\<And>n. bit X n = (n < 64 \<and> n mod 16 < 8 \<and> bit X0 (2 * (8 * (n div 16) + n mod 16)))"
  shows "bit ((X OR drop_bit 8 X) AND 0x0000ffff0000ffff) n
    = (n < 64 \<and> n mod 32 < 16 \<and> bit X0 (2 * (16 * (n div 32) + n mod 32)))"
proof (cases "n < 64")
  case True
  from below_64_cases [OF this] show ?thesis
    unfolding squash_step
    by (elim insertE emptyE; simp add: X numeral_2_eq_2 [symmetric])
next
  case False
  then show ?thesis
    unfolding squash_step by simp
qed

lemma squash_stage16:
  fixes X0 X :: uint64
  assumes X: "\<And>n. bit X n = (n < 64 \<and> n mod 32 < 16 \<and> bit X0 (2 * (16 * (n div 32) + n mod 32)))"
  shows "bit ((X OR drop_bit 16 X) AND 0x00000000ffffffff) n
    = (n < 32 \<and> bit X0 (2 * n))"
proof (cases "n < 64")
  case True
  from below_64_cases [OF this] show ?thesis
    unfolding squash_step
    by (elim insertE emptyE; simp add: X numeral_2_eq_2 [symmetric])
next
  case False
  then show ?thesis
    unfolding squash_step by simp
qed

lemma bit_squash: "bit (squash X) n = (n < 32 \<and> bit X (2 * n))"
proof -
  have "bit (squash X) n = (n < 32 \<and> n < 32 \<and> bit X (2 * n))"
    unfolding squash_def Let_def bit_ucast_64_32
    by (intro arg_cong2 [where f = "(\<and>)"] refl squash_stage16 squash_stage8 squash_stage4
        squash_stage2 squash_stage1 squash_stage0)
  then show ?thesis by simp
qed

lemma bit_interleave:
  "bit (interleave x y) n = (if even n then bit x (n div 2) else bit y (n div 2))"
proof (cases "even n")
  case True
  then show ?thesis
    unfolding interleave_def
    by (simp only: bit_or_iff bit_push_bit_iff bit_spread) auto
next
  case False
  then have n: "1 \<le> n" "even (n - 1)" "(n - 1) div 2 = n div 2"
    by (auto elim!: oddE)
  have "n < 64" if "bit y (n div 2)"
    using bit_imp_le_length [OF that] False by (auto elim!: oddE)
  with False n show ?thesis
    unfolding interleave_def
    by (simp only: bit_or_iff bit_push_bit_iff bit_spread) auto
qed

lemma squash_interleave: "squash (interleave x y) = x"
  by (rule bit_word_eqI) (simp add: bit_squash bit_interleave)

lemma squash_drop_interleave: "squash (drop_bit 1 (interleave x y)) = y"
proof (rule bit_word_eqI)
  fix n assume "n < LENGTH(32)"
  then show "bit (squash (drop_bit 1 (interleave x y))) n = bit y n"
    by (simp only: bit_squash bit_drop_bit_eq comp_def) (simp add: bit_interleave)
qed

section \<open>The string codec in closed form\<close>

lemma unat_minus_of_nat:
  fixes c :: nat
  assumes "n \<le> c" "c < 2 ^ 64"
  shows "unat (of_nat c - of_nat n :: uint) = c - n"
proof -
  have "(of_nat c - of_nat n :: uint) = of_nat (c - n)"
    using assms by simp
  moreover have "c - n < 2 ^ 64"
    using assms by simp
  then have "unat (of_nat (c - n) :: uint) = c - n"
    unfolding unat_of_nat by simp
  ultimately show ?thesis by (simp only:)
qed

lemma unat_64_minus: "n \<le> 64 \<Longrightarrow> unat (64 - of_nat n :: uint) = 64 - n"
  using unat_minus_of_nat [of n 64] by simp

lemma unat_12_minus: "k \<le> 12 \<Longrightarrow> unat (12 - of_nat k :: uint) = 12 - k"
  using unat_minus_of_nat [of k 12] by simp

lemma length_Encode [simp]: "length (base32encoding_Encode x) = 12"
  by (simp add: base32encoding_Encode_def)

lemma Encode_nth:
  "i < 12 \<Longrightarrow> base32encoding_Encode x ! i
    = alphabet ! unat (take_bit 5 (drop_bit (5 * (11 - i)) x))"
  by (simp add: base32encoding_Encode_def del: upt_Suc)

lemma drop_Encode:
  assumes "k \<le> 12"
  shows "drop (12 - k) (base32encoding_Encode (drop_bit (64 - 5 * k) h))
    = take k (base32encoding_Encode (drop_bit 4 h))"
proof (rule nth_equalityI)
  show "length (drop (12 - k) (base32encoding_Encode (drop_bit (64 - 5 * k) h)))
    = length (take k (base32encoding_Encode (drop_bit 4 h)))"
    using assms by simp
next
  fix j
  assume "j < length (drop (12 - k) (base32encoding_Encode (drop_bit (64 - 5 * k) h)))"
  with assms have j: "j < k" by simp
  with assms have i: "12 - k + j < 12" "j < 12"
    and sh: "5 * (11 - (12 - k + j)) + (64 - 5 * k) = 5 * (11 - j) + 4"
    by simp_all
  have "drop (12 - k) (base32encoding_Encode (drop_bit (64 - 5 * k) h)) ! j
    = base32encoding_Encode (drop_bit (64 - 5 * k) h) ! (12 - k + j)"
    using assms j by simp
  also have "\<dots> = alphabet ! unat (take_bit 5 (drop_bit (5 * (11 - j) + 4) h))"
    by (simp only: Encode_nth [OF i(1)] drop_bit_drop_bit sh)
  also have "\<dots> = base32encoding_Encode (drop_bit 4 h) ! j"
    by (simp only: Encode_nth [OF i(2)] drop_bit_drop_bit)
  also have "\<dots> = take k (base32encoding_Encode (drop_bit 4 h)) ! j"
    using j by simp
  finally show "drop (12 - k) (base32encoding_Encode (drop_bit (64 - 5 * k) h)) ! j
    = take k (base32encoding_Encode (drop_bit 4 h)) ! j" .
qed

lemma EncodeWithPrecision_closed:
  assumes "k \<le> 12"
  shows "EncodeWithPrecision lat lng (of_nat k)
    = Inr (take k (base32encoding_Encode (drop_bit 4 (EncodeInt lat lng))))"
proof -
  have "(5 * of_nat k :: uint) = of_nat (5 * k)" by simp
  moreover have "unat (64 - of_nat (5 * k) :: uint) = 64 - 5 * k"
    using assms by (intro unat_64_minus) simp
  ultimately show ?thesis
    using assms
    by (simp add: EncodeWithPrecision_def EncodeIntWithPrecision_def slice_from_def Let_def
        unat_12_minus drop_Encode del: of_nat_mult)
qed

lemma ConvertIntToString_closed:
  assumes "k \<le> 12"
  shows "ConvertIntToString h (of_nat k) = Inr (drop (12 - k) (base32encoding_Encode h))"
  using assms by (simp add: ConvertIntToString_def slice_from_def unat_12_minus)

lemma slice_from_panics:
  assumes "12 < chars"
  shows "slice_from (base32encoding_Encode x) (12 - chars) = Inl SliceBoundsOutOfRange"
proof -
  have "12 < unat (12 - chars)"
    using assms by unat_arith
  then show ?thesis by (simp add: slice_from_def)
qed

lemma word_le_12_cases:
  fixes chars :: uint
  assumes "chars \<le> 12"
  obtains k where "k \<le> 12" "chars = of_nat k" "unat chars = k"
proof
  show "unat chars \<le> 12" using assms by (simp add: word_le_nat_alt)
  show "chars = of_nat (unat chars)" by simp
  show "unat chars = unat chars" ..
qed

lemma bit_EncodeInt:
  "bit (EncodeInt lat lng) n
    = (if even n then bit (encodeRange lat 90) (n div 2) else bit (encodeRange lng 180) (n div 2))"
  by (simp only: EncodeInt_def encodeInt_def Let_def bit_interleave)


section \<open>The bits of a decoded string\<close>

lemma position_less: "position c xs = Some i \<Longrightarrow> i < length xs \<and> xs ! i = c"
  by (induction xs arbitrary: i) (auto split: if_splits)

lemma position_member: "c \<in> set xs \<Longrightarrow> \<exists>i. position c xs = Some i"
  by (induction xs) auto

lemma symbol_value_index: "\<exists>i<32. symbol_value c = of_nat i"
proof (cases "position c alphabet")
  case None
  then have "symbol_value c = of_nat 0" by (simp add: symbol_value_def)
  then show ?thesis by (intro exI [of _ 0]) simp
next
  case (Some i)
  then have "i < 32" using position_less [of c alphabet i] by (simp add: alphabet_def)
  with Some show ?thesis by (auto simp: symbol_value_def)
qed

lemma take_bit_symbol_value: "take_bit 5 (symbol_value c) = symbol_value c"
proof -
  obtain i where i: "i < 32" "symbol_value c = of_nat i"
    using symbol_value_index by blast
  then have "take_bit 5 i = i" by (simp add: take_bit_nat_eq_self)
  with i show ?thesis by (simp only: take_bit_of_nat)
qed

lemma bit_symbol_value: "bit (symbol_value c) n \<Longrightarrow> n < 5"
  using take_bit_symbol_value [of c] by (metis bit_take_bit_iff)

lemma alphabet_symbol_value:
  assumes "c \<in> set alphabet"
  shows "alphabet ! unat (symbol_value c) = c"
proof -
  from assms obtain i where i: "position c alphabet = Some i"
    using position_member by fast
  then have "i < 32" "alphabet ! i = c"
    using position_less [of c alphabet i] by (simp_all add: alphabet_def)
  with i show ?thesis by (simp add: symbol_value_def unat_of_nat)
qed

lemma below_32_cases:
  "v < 32 \<Longrightarrow> v \<in> {31, 30, 29, 28, 27, 26, 25, 24, 23, 22, 21, 20, 19, 18, 17, 16, 15, 14,
     13, 12, 11, 10, 9, 8, 7, 6, 5, 4, 3, 2, 1, 0::nat}"
  by (simp only: insert_iff empty_iff) arith

lemma symbol_value_alphabet:
  assumes "v < 32"
  shows "symbol_value (alphabet ! v) = of_nat v"
  using below_32_cases [OF assms]
  by (elim insertE emptyE; simp add: symbol_value_def alphabet_def)

lemma symbol_value_group:
  "symbol_value (alphabet ! unat (take_bit 5 w)) = take_bit 5 w"
proof -
  have "unat (take_bit 5 w) = take_bit 5 (unat w)"
    by (simp only: unsigned_take_bit_eq)
  also have "\<dots> < 2 ^ 5" by (rule take_bit_nat_less_exp)
  finally have "unat (take_bit 5 w) < 32" by simp
  then have "symbol_value (alphabet ! unat (take_bit 5 w)) = of_nat (unat (take_bit 5 w))"
    by (rule symbol_value_alphabet)
  then show ?thesis by simp
qed

lemma Decode_snoc:
  "base32encoding_Decode (s @ [c]) = push_bit 5 (base32encoding_Decode s) OR symbol_value c"
  by (simp add: base32encoding_Decode_def)

text \<open>Counted from the end of the string, symbol \<open>i\<close> is bits \<open>5 i + 4\<close> down to \<open>5 i\<close>.\<close>

lemma bit_Decode:
  "bit (base32encoding_Decode s) n \<longleftrightarrow>
    n < 64 \<and> n div 5 < length s \<and> bit (symbol_value (rev s ! (n div 5))) (n mod 5)"
proof (induction s arbitrary: n rule: rev_induct)
  case Nil
  then show ?case by (simp add: base32encoding_Decode_def)
next
  case (snoc c s)
  show ?case
  proof (cases "n < 5")
    case True
    then show ?thesis
      by (simp add: Decode_snoc bit_or_iff bit_push_bit_iff)
  next
    case False
    then have n: "5 \<le> n" "n div 5 = Suc ((n - 5) div 5)" "n mod 5 = (n - 5) mod 5"
      by (simp_all add: le_div_geq le_mod_geq)
    have "\<not> bit (symbol_value c) n"
      using bit_symbol_value [of c n] False by blast
    then have "bit (base32encoding_Decode (s @ [c])) n
        \<longleftrightarrow> n < 64 \<and> bit (base32encoding_Decode s) (n - 5)"
      using n(1) by (auto simp: Decode_snoc bit_or_iff bit_push_bit_iff dest: bit_imp_le_length)
    also have "\<dots> \<longleftrightarrow> n < 64 \<and> (n - 5) div 5 < length s
        \<and> bit (symbol_value (rev s ! ((n - 5) div 5))) ((n - 5) mod 5)"
      unfolding snoc.IH using n(1) by auto
    finally show ?thesis
      by (simp add: n(2,3))
  qed
qed

lemma Decode_head:
  "drop_bit (5 * length H) (base32encoding_Decode H) = 0"
proof (rule bit_eqI)
  fix n
  have "\<not> bit (base32encoding_Decode H) (5 * length H + n)"
    unfolding bit_Decode by simp
  then show "bit (drop_bit (5 * length H) (base32encoding_Decode H)) n = bit (0 :: uint64) n"
    by (simp add: bit_drop_bit_eq)
qed

lemma Decode_group:
  assumes "length H \<le> 12" "j < length H"
  shows "take_bit 5 (drop_bit (5 * (length H - 1 - j)) (base32encoding_Decode H))
    = symbol_value (H ! j)"
proof (rule bit_eqI)
  fix n
  have r: "rev H ! (length H - Suc j) = H ! j"
    using assms(2) by (simp add: rev_nth)
  have "n < 5 \<and> bit (base32encoding_Decode H) (5 * (length H - 1 - j) + n)
      \<longleftrightarrow> bit (symbol_value (H ! j)) n"
  proof (cases "n < 5")
    case True
    then have "(5 * (length H - 1 - j) + n) div 5 = length H - 1 - j"
      and "(5 * (length H - 1 - j) + n) mod 5 = n"
      by simp_all
    moreover have "5 * (length H - 1 - j) + n < 64"
      using assms True by simp
    moreover have "length H - Suc j < length H"
      using assms(2) by arith
    ultimately show ?thesis
      unfolding bit_Decode using assms(2) True by (simp add: r)
  next
    case False
    then show ?thesis using bit_symbol_value [of "H ! j" n] by blast
  qed
  then show "bit (take_bit 5 (drop_bit (5 * (length H - 1 - j)) (base32encoding_Decode H))) n
      = bit (symbol_value (H ! j)) n"
    by (simp add: bit_take_bit_iff bit_drop_bit_eq)
qed

text \<open>Decoding the first \<open>k\<close> symbols of a hash gives its \<open>5 k\<close> high-order bits back.\<close>

lemma Decode_Encode_prefix:
  assumes "k \<le> 12"
  shows "base32encoding_Decode (take k (base32encoding_Encode (drop_bit 4 h)))
    = drop_bit (64 - 5 * k) h"
proof (rule bit_word_eqI)
  fix n assume "n < LENGTH(64)"
  then have n64: "n < 64" by simp
  let ?E = "base32encoding_Encode (drop_bit 4 h)"
  show "bit (base32encoding_Decode (take k ?E)) n = bit (drop_bit (64 - 5 * k) h) n"
  proof (cases "n div 5 < k")
    case True
    define j where "j = k - 1 - n div 5"
    have j: "j < k" "j < 12" "5 * (11 - j) + 4 + n mod 5 = 64 - 5 * k + n"
      unfolding j_def using True assms by (simp_all add: algebra_simps)
    have "rev (take k ?E) ! (n div 5) = take k ?E ! j"
      using True assms by (simp add: rev_nth j_def)
    also have "\<dots> = ?E ! j" using j(1) by simp
    also have "\<dots> = alphabet ! unat (take_bit 5 (drop_bit (5 * (11 - j) + 4) h))"
      by (simp only: Encode_nth [OF j(2)] drop_bit_drop_bit)
    finally have "symbol_value (rev (take k ?E) ! (n div 5))
        = take_bit 5 (drop_bit (5 * (11 - j) + 4) h)"
      by (simp only: symbol_value_group)
    then have "bit (symbol_value (rev (take k ?E) ! (n div 5))) (n mod 5)
        = bit h (64 - 5 * k + n)"
      by (simp add: bit_take_bit_iff bit_drop_bit_eq j(3))
    then show ?thesis
      unfolding bit_Decode using True assms n64 by (simp add: bit_drop_bit_eq)
  next
    case False
    then have "64 \<le> 64 - 5 * k + n" using assms by simp
    then have "\<not> bit h (64 - 5 * k + n)"
      using bit_imp_le_length [of h "64 - 5 * k + n"] by auto
    then show ?thesis
      unfolding bit_Decode using False assms by (simp add: bit_drop_bit_eq)
  qed
qed


section \<open>Validation lemmas\<close>

lemma check_characters_None:
  "check_characters h = None \<longleftrightarrow> (\<forall>c \<in> set h. c \<in> set alphabet)"
  by (induction h) (simp_all add: base32encoding_ValidByte_def)

lemma check_characters_first:
  "\<exists>c \<in> set h. c \<notin> set alphabet \<Longrightarrow>
    check_characters h = Some (InvalidCharacter (hd (dropWhile (\<lambda>c. c \<in> set alphabet) h)))"
  by (induction h) (auto simp: base32encoding_ValidByte_def)

lemma set_Encode: "set (base32encoding_Encode x) \<subseteq> set alphabet"
proof -
  have "unat (take_bit 5 w) < length alphabet" for w :: uint64
  proof -
    have "unat (take_bit 5 w) = take_bit 5 (unat w)"
      by (simp only: unsigned_take_bit_eq)
    also have "\<dots> < 2 ^ 5" by (rule take_bit_nat_less_exp)
    finally show ?thesis by (simp add: alphabet_def)
  qed
  then show ?thesis
    unfolding base32encoding_Encode_def by (auto simp del: upt_Suc)
qed

lemma Validate_Encode_prefix:
  "Validate (take k (base32encoding_Encode x)) = None"
proof -
  have "set (take k (base32encoding_Encode x)) \<subseteq> set alphabet"
    using set_take_subset set_Encode by fast
  then have "check_characters (take k (base32encoding_Encode x)) = None"
    unfolding check_characters_None by blast
  then show ?thesis by (simp add: Validate_def min_def)
qed

lemma Validate_Encode: "Validate (base32encoding_Encode x) = None"
  using Validate_Encode_prefix [of 12 x] by simp

section \<open>Rounding to float64\<close>

lemma powi_pos [simp]: "0 < (2::real) powi i"
  by simp

lemma powi_add: "(2::real) powi (i + j) = 2 powi i * 2 powi j"
  by (simp add: power_int_add)

lemma powi_diff: "(2::real) powi (i - j) = 2 powi i / 2 powi j"
  by (simp add: power_int_diff)

lemma powi_le: "i \<le> j \<Longrightarrow> (2::real) powi i \<le> 2 powi j"
  by (rule power_int_increasing) simp_all

lemma powi_less: "i < j \<Longrightarrow> (2::real) powi i < 2 powi j"
  by (rule power_int_strict_increasing) simp_all

lemma powi_less_D: "(2::real) powi i < 2 powi j \<Longrightarrow> i < j"
  using powi_le [of j i] by (cases "i < j") simp_all

lemma powi_int: "0 \<le> i \<Longrightarrow> (2::real) powi i = of_int (2 ^ nat i)"
  by (simp add: power_int_def)

lemma round_half_even_of_int [simp]: "round_half_even (of_int k) = k"
  by (simp add: round_half_even_def)

lemma round_half_even_floor:
  "(round_half_even t = \<lfloor>t\<rfloor> \<and> t - of_int \<lfloor>t\<rfloor> \<le> 1 / 2)
    \<or> (round_half_even t = \<lfloor>t\<rfloor> + 1 \<and> 1 / 2 \<le> t - of_int \<lfloor>t\<rfloor>)"
  unfolding round_half_even_def Let_def by (simp add: not_less)

lemma round_half_even_ge: "of_int k \<le> t \<Longrightarrow> k \<le> round_half_even t"
proof -
  assume "of_int k \<le> t"
  then have "k \<le> \<lfloor>t\<rfloor>" by (simp add: le_floor_iff)
  with round_half_even_floor [of t] show ?thesis by auto
qed

lemma round_half_even_le: "t \<le> of_int k \<Longrightarrow> round_half_even t \<le> k"
proof (cases "t = of_int k")
  case True
  then show ?thesis by simp
next
  case False
  assume "t \<le> of_int k"
  with False have "t < of_int k" by simp
  then have "\<lfloor>t\<rfloor> < k" by (simp add: floor_less_iff)
  with round_half_even_floor [of t] show ?thesis by auto
qed

lemma round_half_even_below:
  assumes "t < of_int k - 1 / 2"
  shows "round_half_even t \<le> k - 1"
proof -
  have f: "of_int \<lfloor>t\<rfloor> \<le> t" by simp
  from round_half_even_floor [of t] show ?thesis
  proof
    assume r: "round_half_even t = \<lfloor>t\<rfloor> \<and> t - of_int \<lfloor>t\<rfloor> \<le> 1 / 2"
    from f assms have "real_of_int \<lfloor>t\<rfloor> < of_int k" by linarith
    then have "\<lfloor>t\<rfloor> < k" by simp
    with r show ?thesis by simp
  next
    assume r: "round_half_even t = \<lfloor>t\<rfloor> + 1 \<and> 1 / 2 \<le> t - of_int \<lfloor>t\<rfloor>"
    with assms have "real_of_int \<lfloor>t\<rfloor> < of_int (k - 1)" by (simp; linarith)
    then have "\<lfloor>t\<rfloor> < k - 1" by (simp only: of_int_less_iff)
    with r show ?thesis by simp
  qed
qed

lemma round_half_even_near:
  assumes "\<bar>t - of_int k\<bar> < 1 / 2"
  shows "round_half_even t = k"
proof -
  have "of_int (k - 1) \<le> t" using assms by (simp add: abs_less_iff; linarith)
  then have 1: "k - 1 \<le> round_half_even t" by (rule round_half_even_ge)
  have "t \<le> of_int (k + 1)" using assms by (simp add: abs_less_iff; linarith)
  then have 2: "round_half_even t \<le> k + 1" by (rule round_half_even_le)
  have "t < of_int (k + 1) - 1 / 2" using assms by (simp add: abs_less_iff; linarith)
  then have 3: "round_half_even t \<le> k" using round_half_even_below [of t "k + 1"] by simp
  have 4: "k \<le> round_half_even t"
  proof (rule ccontr)
    assume "\<not> k \<le> round_half_even t"
    with 1 have r: "round_half_even t = k - 1" by simp
    from round_half_even_floor [of t] r assms show False
      by (auto simp: abs_less_iff; linarith)
  qed
  from 3 4 show ?thesis by simp
qed

lemma float_exponent_ge: "- 1022 \<le> float_exponent x"
  by (simp add: float_exponent_def)

lemma float_exponent_upper:
  assumes "x \<noteq> 0"
  shows "\<bar>x\<bar> < 2 powi (float_exponent x + 1)"
proof -
  have "\<bar>x\<bar> < 2 powr (of_int \<lfloor>log 2 \<bar>x\<bar>\<rfloor> + 1)"
    using assms floor_log_eq_powr_iff [of "\<bar>x\<bar>" 2 "\<lfloor>log 2 \<bar>x\<bar>\<rfloor>"] by simp
  also have "\<dots> = 2 powi (\<lfloor>log 2 \<bar>x\<bar>\<rfloor> + 1)"
    using powr_real_of_int' [of 2 "\<lfloor>log 2 \<bar>x\<bar>\<rfloor> + 1"] by simp
  also have "\<dots> \<le> 2 powi (float_exponent x + 1)"
    by (rule powi_le) (simp add: float_exponent_def)
  finally show ?thesis .
qed

lemma float_exponent_lower:
  assumes "x \<noteq> 0"
  shows "2 powi float_exponent x \<le> \<bar>x\<bar> \<or> float_exponent x = - 1022"
proof (cases "float_exponent x = - 1022")
  case False
  then have e: "float_exponent x = \<lfloor>log 2 \<bar>x\<bar>\<rfloor>"
    by (simp add: float_exponent_def max_def split: if_splits)
  have "2 powr of_int \<lfloor>log 2 \<bar>x\<bar>\<rfloor> \<le> \<bar>x\<bar>"
    using assms floor_log_eq_powr_iff [of "\<bar>x\<bar>" 2 "\<lfloor>log 2 \<bar>x\<bar>\<rfloor>"] by simp
  then show ?thesis
    using powr_real_of_int' [of 2 "\<lfloor>log 2 \<bar>x\<bar>\<rfloor>"] e by simp
qed simp

lemma float_exponent_le:
  assumes "x \<noteq> 0" "\<bar>x\<bar> < 2 powi (E + 1)" "- 1022 \<le> E"
  shows "float_exponent x \<le> E"
proof (rule ccontr)
  assume "\<not> float_exponent x \<le> E"
  then have gt: "E + 1 \<le> float_exponent x" by simp
  with assms(3) have "float_exponent x \<noteq> - 1022" by simp
  with float_exponent_lower [OF assms(1)] have "2 powi float_exponent x \<le> \<bar>x\<bar>" by simp
  moreover have "2 powi (E + 1) \<le> (2::real) powi float_exponent x"
    using gt by (rule powi_le)
  ultimately show False using assms(2) by simp
qed

lemma float_exponent_eq:
  assumes "2 powi E \<le> \<bar>x\<bar>" "\<bar>x\<bar> < 2 powi (E + 1)" "- 1022 \<le> E"
  shows "float_exponent x = E"
proof -
  have x: "x \<noteq> 0"
  proof
    assume "x = 0"
    with assms(1) have "(2::real) powi E \<le> 0" by simp
    with powi_pos [of E] show False by linarith
  qed
  have "float_exponent x \<le> E" using x assms(2,3) by (rule float_exponent_le)
  moreover have "E \<le> float_exponent x"
  proof (rule ccontr)
    assume "\<not> E \<le> float_exponent x"
    then have "float_exponent x + 1 \<le> E" by simp
    then have "(2::real) powi (float_exponent x + 1) \<le> 2 powi E" by (rule powi_le)
    with float_exponent_upper [OF x] assms(1) show False by simp
  qed
  ultimately show ?thesis by simp
qed


lemma fl_0 [simp]: "fl 0 = 0"
  by (simp add: fl_def)

lemma fl_unit:
  assumes "x \<noteq> 0"
  shows "fl x = of_int (round_half_even (x / 2 powi (float_exponent x - 52)))
    * 2 powi (float_exponent x - 52)"
  using assms by (simp add: fl_def Let_def)

lemma powi_shift_int:
  assumes "j \<le> i"
  shows "\<exists>m::int. 0 < m \<and> (2::real) powi i = of_int m * 2 powi j"
proof -
  have "(2::real) powi i = 2 powi (i - j) * 2 powi j"
    by (simp flip: powi_add)
  also have "(2::real) powi (i - j) = of_int (2 ^ nat (i - j))"
    using assms by (intro powi_int) simp
  finally show ?thesis by (intro exI [of _ "2 ^ nat (i - j)"]) simp
qed

lemma fl_representable_strict:
  assumes "\<bar>k\<bar> < 2 ^ 53" "- 1074 \<le> e"
  shows "fl (of_int k * 2 powi e) = of_int k * 2 powi e"
proof (cases "k = 0")
  case True
  then show ?thesis by simp
next
  case False
  define x :: real where "x = of_int k * 2 powi e"
  define E where "E = float_exponent x"
  have x0: "x \<noteq> 0" using False by (simp add: x_def)
  have "\<bar>x\<bar> = of_int \<bar>k\<bar> * 2 powi e"
    by (simp add: x_def abs_mult)
  also have "\<dots> < of_int (2 ^ 53) * 2 powi e"
    using assms(1) by (intro mult_strict_right_mono) (simp_all only: of_int_less_iff powi_pos)
  also have "\<dots> = 2 powi (e + 52 + 1)"
    by (simp add: powi_add)
  finally have "E \<le> e + 52"
    unfolding E_def using x0 assms(2) by (intro float_exponent_le) simp_all
  then obtain m :: int where m: "(2::real) powi e = of_int m * 2 powi (E - 52)"
    using powi_shift_int [of "E - 52" e] by auto
  then have "x / 2 powi (E - 52) = of_int (k * m)"
    by (simp add: x_def)
  then have "round_half_even (x / 2 powi (E - 52)) = k * m"
    by (simp only: round_half_even_of_int)
  then have "fl x = of_int (k * m) * 2 powi (E - 52)"
    using fl_unit [OF x0] by (simp only: E_def [symmetric])
  also have "\<dots> = x"
    by (simp add: x_def m)
  finally show ?thesis by (simp only: x_def)
qed

lemma fl_representable:
  assumes "\<bar>k\<bar> \<le> 2 ^ 53" "- 1074 \<le> e"
  shows "fl (of_int k * 2 powi e) = of_int k * 2 powi e"
proof (cases "\<bar>k\<bar> < 2 ^ 53")
  case True
  then show ?thesis using assms(2) by (rule fl_representable_strict)
next
  case False
  with assms(1) have "\<bar>k\<bar> = 2 ^ 53" by simp
  then have "k = 2 ^ 53 \<or> k = - (2 ^ 53)" by linarith
  then have "k = 2 * (k div 2)" "\<bar>k div 2\<bar> < 2 ^ 53" by auto
  then have "(of_int k :: real) = 2 * of_int (k div 2)"
    by (metis of_int_mult of_int_numeral)
  then have "of_int k * (2::real) powi e = of_int (k div 2) * 2 powi (e + 1)"
    by (simp add: powi_add)
  moreover have "fl (of_int (k div 2) * 2 powi (e + 1)) = of_int (k div 2) * 2 powi (e + 1)"
    using \<open>\<bar>k div 2\<bar> < 2 ^ 53\<close> assms(2) by (intro fl_representable_strict) simp_all
  ultimately show ?thesis by simp
qed

lemma fl_nonneg: "0 \<le> z \<Longrightarrow> 0 \<le> fl z"
proof (cases "z = 0")
  case False
  assume "0 \<le> z"
  then have "of_int 0 \<le> z / 2 powi (float_exponent z - 52)" by simp
  then have "0 \<le> round_half_even (z / 2 powi (float_exponent z - 52))"
    by (rule round_half_even_ge)
  then show ?thesis using False by (simp add: fl_unit)
qed simp


lemma fl_ge:
  assumes y: "y = of_int k * 2 powi e" and k: "0 \<le> k" "k \<le> 2 ^ 53" and e: "- 1074 \<le> e"
    and yz: "y \<le> z"
  shows "y \<le> fl z"
proof (cases "z = 0")
  case True
  have "0 \<le> y" using k(1) by (simp add: y)
  with True yz show ?thesis by simp
next
  case False
  have y0: "0 \<le> y" using k(1) by (simp add: y)
  then have z0: "0 < z" using yz False by simp
  define E where "E = float_exponent z"
  define u :: real where "u = 2 powi (E - 52)"
  have u0: "0 < u" by (simp add: u_def)
  have flz: "fl z = of_int (round_half_even (z / u)) * u"
    using fl_unit [OF False] by (simp only: E_def [symmetric] u_def [symmetric])
  show ?thesis
  proof (cases "E - 52 \<le> e")
    case True
    then obtain m :: int where m: "(2::real) powi e = of_int m * u"
      unfolding u_def using powi_shift_int [of "E - 52" e] by auto
    have "y = of_int (k * m) * u" by (simp add: y m)
    then have "of_int (k * m) \<le> z / u"
      using yz u0 by (simp add: pos_le_divide_eq)
    then have "k * m \<le> round_half_even (z / u)"
      by (rule round_half_even_ge)
    then have "(of_int (k * m) :: real) \<le> of_int (round_half_even (z / u))"
      by (simp only: of_int_le_iff)
    then have "of_int (k * m) * u \<le> of_int (round_half_even (z / u)) * u"
      using u0 by (intro mult_right_mono) simp_all
    then show ?thesis by (simp only: flz \<open>y = of_int (k * m) * u\<close>)
  next
    case False
    then have eE: "e + 53 \<le> E" by simp
    then have "E \<noteq> - 1022" using e by simp
    then have low: "2 powi E \<le> z"
      using float_exponent_lower [of z] z0 by (simp add: E_def)
    have "y \<le> of_int (2 ^ 53) * 2 powi e"
      unfolding y using k(2) by (intro mult_right_mono) (simp_all only: of_int_le_iff powi_pos less_imp_le)
    also have "\<dots> = 2 powi (e + 53)" by (simp add: powi_add)
    also have "\<dots> \<le> 2 powi E" using eE by (rule powi_le)
    finally have yE: "y \<le> 2 powi E" .
    have "(2::real) powi E = 2 powi 52 * u"
      using powi_add [of 52 "E - 52"] by (simp add: u_def)
    then have E52: "(2::real) powi E = of_int (2 ^ 52) * u" by simp
    then have "of_int (2 ^ 52) \<le> z / u"
      using low u0 by (simp add: pos_le_divide_eq)
    then have "2 ^ 52 \<le> round_half_even (z / u)"
      by (rule round_half_even_ge)
    then have "(of_int (2 ^ 52) :: real) \<le> of_int (round_half_even (z / u))"
      by (simp only: of_int_le_iff)
    then have "of_int (2 ^ 52) * u \<le> of_int (round_half_even (z / u)) * u"
      using u0 by (intro mult_right_mono) simp_all
    then have "2 powi E \<le> fl z" by (simp only: flz E52)
    with yE show ?thesis by simp
  qed
qed

lemma fl_less:
  assumes z: "0 \<le> z" "z < 2 powi (Eq + 1)" and Eq: "- 1022 \<le> Eq"
    and q: "q = of_int M * 2 powi (Eq - 52)"
    and gap: "z < q - 2 powi (Eq - 53)"
  shows "fl z < q"
proof (cases "z = 0")
  case True
  have "0 < (2::real) powi (Eq - 53)" by simp
  with gap z(1) have "0 < q" by linarith
  with True show ?thesis by simp
next
  case False
  define E where "E = float_exponent z"
  define u :: real where "u = 2 powi (E - 52)"
  have u0: "0 < u" by (simp add: u_def)
  have flz: "fl z = of_int (round_half_even (z / u)) * u"
    using fl_unit [OF False] by (simp only: E_def [symmetric] u_def [symmetric])
  have EEq: "E \<le> Eq"
    unfolding E_def using False z Eq by (intro float_exponent_le) simp_all
  then obtain m :: int where m: "(2::real) powi (Eq - 52) = of_int m * u"
    unfolding u_def using powi_shift_int [of "E - 52" "Eq - 52"] by auto
  have qu: "q = of_int (M * m) * u" by (simp add: q m)
  have "u \<le> 2 powi (Eq - 52)"
    unfolding u_def using EEq by (intro powi_le) simp
  also have "\<dots> = 2 * 2 powi (Eq - 53)"
    using powi_add [of 1 "Eq - 53"] by simp
  finally have "u / 2 \<le> 2 powi (Eq - 53)" by simp
  with gap have "z < q - u / 2" by linarith
  then have "z < (of_int (M * m) - 1 / 2) * u"
    by (simp add: qu algebra_simps)
  then have "z / u < of_int (M * m) - 1 / 2"
    using u0 by (simp add: pos_divide_less_eq)
  then have "round_half_even (z / u) \<le> M * m - 1"
    by (rule round_half_even_below)
  then have "(of_int (round_half_even (z / u)) :: real) \<le> of_int (M * m - 1)"
    by (simp only: of_int_le_iff)
  then have "of_int (round_half_even (z / u)) * u \<le> of_int (M * m - 1) * u"
    using u0 by (intro mult_right_mono) simp_all
  also have "\<dots> = q - u" by (simp add: qu algebra_simps)
  also have "\<dots> < q" using u0 by simp
  finally show ?thesis by (simp only: flz)
qed

lemma fl_exists:
  "\<exists>k e. \<bar>k\<bar> \<le> 2 ^ 53 \<and> - 1074 \<le> e \<and> fl x = of_int k * 2 powi e"
proof (cases "x = 0")
  case True
  then show ?thesis by (intro exI [of _ 0] exI [of _ "0::int"]) simp
next
  case False
  define E where "E = float_exponent x"
  define u :: real where "u = 2 powi (E - 52)"
  have u0: "0 < u" by (simp add: u_def)
  have flx: "fl x = of_int (round_half_even (x / u)) * u"
    using fl_unit [OF False] by (simp only: E_def [symmetric] u_def [symmetric])
  have "\<bar>x\<bar> < 2 powi (E + 1)"
    unfolding E_def using False by (rule float_exponent_upper)
  also have "\<dots> = 2 powi 53 * u"
    using powi_add [of 53 "E - 52"] by (simp add: u_def add.commute)
  finally have "\<bar>x\<bar> / u < of_int (2 ^ 53)"
    using u0 by (simp add: pos_divide_less_eq)
  then have "\<bar>x / u\<bar> < of_int (2 ^ 53)"
    using u0 by simp
  then have "x / u < of_int (2 ^ 53) \<and> - (x / u) < of_int (2 ^ 53)"
    by (simp only: abs_less_iff)
  then have b: "x / u \<le> of_int (2 ^ 53)" "of_int (- (2 ^ 53)) \<le> x / u"
    by (simp_all only: of_int_minus) linarith+
  have "round_half_even (x / u) \<le> 2 ^ 53"
    using b(1) by (rule round_half_even_le)
  moreover have "- (2 ^ 53) \<le> round_half_even (x / u)"
    using b(2) by (rule round_half_even_ge)
  ultimately have "\<bar>round_half_even (x / u)\<bar> \<le> 2 ^ 53" by simp
  moreover have "- 1074 \<le> E - 52"
    using float_exponent_ge [of x] by (simp add: E_def)
  ultimately show ?thesis
    using flx unfolding u_def by blast
qed

lemma fl_idem: "fl (fl x) = fl x"
proof -
  obtain k e where "\<bar>k\<bar> \<le> 2 ^ 53" "- 1074 \<le> e" "fl x = of_int k * 2 powi e"
    using fl_exists [of x] by blast
  then show ?thesis using fl_representable [of k e] by simp
qed

lemma fl_near:
  assumes "2 powi E \<le> \<bar>z\<bar>" "\<bar>z\<bar> < 2 powi (E + 1)" "- 1022 \<le> E"
    and "\<bar>z / 2 powi (E - 52) - of_int k\<bar> < 1 / 2"
  shows "fl z = of_int k * 2 powi (E - 52)"
proof -
  have z0: "z \<noteq> 0"
  proof
    assume "z = 0"
    with assms(1) have "2 powi E \<le> (0::real)" by simp
    with powi_pos [of E] show False by linarith
  qed
  have E: "float_exponent z = E"
    using assms(1-3) by (rule float_exponent_eq)
  have "round_half_even (z / 2 powi (E - 52)) = k"
    using assms(4) by (rule round_half_even_near)
  then show ?thesis using fl_unit [OF z0] by (simp only: E)
qed

lemma powi_le_D:
  assumes "(2::real) powi i \<le> 2 powi j"
  shows "i \<le> j"
proof (rule ccontr)
  assume "\<not> i \<le> j"
  then have "j < i" by simp
  then have "(2::real) powi j < 2 powi i" by (rule powi_less)
  with assms show False by simp
qed

lemma powi_real: "(2::real) powr of_int i = 2 powi i"
  by (rule powr_real_of_int') simp_all

lemma binade:
  assumes "0 < (q::real)"
  shows "\<exists>E. 2 powi E < q \<and> q \<le> 2 powi (E + 1)"
proof -
  define E where "E = \<lceil>log 2 q\<rceil> - 1"
  have "of_int E < log 2 q" unfolding E_def by linarith
  then have "2 powr of_int E < q"
    using assms by (simp add: powr_less_iff)
  moreover have "log 2 q \<le> of_int (E + 1)" unfolding E_def by simp
  then have "q \<le> 2 powr of_int (E + 1)"
    using assms by (simp only: le_powr_iff one_less_numeral_iff semiring_norm)
  ultimately show ?thesis by (auto simp only: powi_real)
qed

lemma float_gap:
  fixes s T :: real
  assumes s: "s = of_int k * 2 powi e" and k: "0 \<le> k" "k \<le> 2 ^ 53"
    and T: "T = of_int N * 2 powi (- 32)"
    and ET: "2 powi ET < T" "T \<le> 2 powi (ET + 1)" "ET \<le> 20"
    and sT: "s < T"
  shows "s \<le> T - 2 powi (ET - 52)"
proof -
  define G :: real where "G = 2 powi (ET - 52)"
  have G0: "0 < G" by (simp add: G_def)
  obtain m :: int where m: "(2::real) powi (- 32) = of_int m * G"
    unfolding G_def using powi_shift_int [of "ET - 52" "- 32"] ET(3) by auto
  define NT where "NT = N * m"
  have TG: "T = of_int NT * G" by (simp only: T m NT_def of_int_mult mult.assoc)
  have EG: "(2::real) powi ET = of_int (2 ^ 52) * G"
    using powi_add [of 52 "ET - 52"] by (simp add: G_def)
  have mult: "s \<le> T - G" if "s = of_int Ns * G" for Ns
  proof -
    have "of_int Ns * G < of_int NT * G" using sT by (simp only: that TG)
    then have "(of_int Ns :: real) < of_int NT"
      using G0 by (simp only: mult_less_cancel_right_pos)
    then have "Ns \<le> NT - 1" by simp
    then have "(of_int Ns :: real) \<le> of_int (NT - 1)" by (simp only: of_int_le_iff)
    then have "of_int Ns * G \<le> of_int (NT - 1) * G"
      using G0 by (intro mult_right_mono) simp_all
    also have "\<dots> = T - G" by (simp add: TG algebra_simps)
    finally show ?thesis by (simp only: that)
  qed
  show ?thesis
  proof (cases "s < 2 powi ET")
    case True
    have "of_int (2 ^ 52) * G < of_int NT * G"
      using ET(1) by (simp only: EG TG)
    then have "(of_int (2 ^ 52) :: real) < of_int NT"
      using G0 by (simp only: mult_less_cancel_right_pos)
    then have "2 ^ 52 \<le> NT - 1" by simp
    then have "(of_int (2 ^ 52) :: real) \<le> of_int (NT - 1)" by (simp only: of_int_le_iff)
    then have "of_int (2 ^ 52) * G \<le> of_int (NT - 1) * G"
      using G0 by (intro mult_right_mono) simp_all
    also have "\<dots> = T - G" by (simp add: TG algebra_simps)
    finally have "2 powi ET \<le> T - G" by (simp only: EG)
    with True show ?thesis by (simp add: G_def)
  next
    case False
    then have low: "2 powi ET \<le> s" by simp
    have "\<exists>Ns. s = of_int Ns * G"
    proof (cases "ET - 52 \<le> e")
      case True
      then obtain m' :: int where "(2::real) powi e = of_int m' * G"
        unfolding G_def using powi_shift_int [of "ET - 52" e] by auto
      then have "s = of_int (k * m') * G" by (simp add: s)
      then show ?thesis ..
    next
      case False
      then have eE: "e + 53 \<le> ET" by simp
      have "s \<le> of_int (2 ^ 53) * 2 powi e"
        unfolding s using k(2) by (intro mult_right_mono) (simp_all only: of_int_le_iff powi_pos less_imp_le)
      also have "\<dots> = 2 powi (e + 53)" by (simp add: powi_add)
      also have "\<dots> \<le> 2 powi ET" using eE by (rule powi_le)
      finally have "s = 2 powi ET" using low by simp
      then have "s = of_int (2 ^ 52) * G" by (simp only: EG)
      then show ?thesis ..
    qed
    then obtain Ns where "s = of_int Ns * G" ..
    then show ?thesis unfolding G_def [symmetric] by (rule mult)
  qed
qed

lemma fl_quotient_less:
  fixes s D :: real
  assumes s: "s = of_int k * 2 powi e" and k: "0 \<le> k" "k \<le> 2 ^ 53"
    and D: "D = of_int Dn" "2 powi a < D" "D < 2 powi (a + 1)" "a \<le> 20"
    and Y: "1 \<le> Y" "Y \<le> 2 ^ 32"
    and less: "s / D < of_int Y * 2 powi (- 32)"
  shows "fl (s / D) < of_int Y * 2 powi (- 32)"
proof -
  define q :: real where "q = of_int Y * 2 powi (- 32)"
  define T where "T = D * q"
  have D0: "0 < D" using D(2) powi_pos [of a] by linarith
  have s0: "0 \<le> s" using k(1) by (simp add: s)
  have q0: "0 < q" using Y(1) by (simp add: q_def)
  have q1: "q \<le> 1"
  proof -
    have "(of_int Y :: real) \<le> of_int (2 ^ 32)" using Y(2) by (simp only: of_int_le_iff)
    then show ?thesis by (simp add: q_def)
  qed
  have qlow: "2 powi (- 32) \<le> q"
  proof -
    have "(of_int 1 :: real) \<le> of_int Y" using Y(1) by (simp only: of_int_le_iff)
    then show ?thesis by (simp add: q_def)
  qed
  obtain Eq where Eq: "2 powi Eq < q" "q \<le> 2 powi (Eq + 1)"
    using binade [OF q0] by blast
  have "(2::real) powi Eq < 2 powi 0" using Eq(1) q1 by simp
  then have Eq_hi: "Eq \<le> - 1" using powi_less_D [of Eq 0] by simp
  have "(2::real) powi (- 32) \<le> 2 powi (Eq + 1)" using qlow Eq(2) by linarith
  then have Eq_lo: "- 33 \<le> Eq" using powi_le_D [of "- 32" "Eq + 1"] by simp
  have T0: "0 < T" using D0 q0 by (simp add: T_def)
  obtain ET where ET: "2 powi ET < T" "T \<le> 2 powi (ET + 1)"
    using binade [OF T0] by blast
  have "T \<le> D" using q1 D0 by (simp add: T_def)
  then have "(2::real) powi ET < 2 powi (a + 1)" using ET(1) D(3) by linarith
  then have ET_hi: "ET \<le> 20" using powi_less_D [of ET "a + 1"] D(4) by simp
  have "2 powi a * 2 powi Eq < D * q"
    using D(2) Eq(1) D0 by (intro mult_strict_mono) simp_all
  then have "(2::real) powi (a + Eq) < 2 powi (ET + 1)"
    using ET(2) by (simp add: powi_add T_def)
  then have ET_lo: "a + Eq \<le> ET" using powi_less_D [of "a + Eq" "ET + 1"] by simp
  have TN: "T = of_int (Dn * Y) * 2 powi (- 32)"
    by (simp add: T_def q_def D(1))
  have "s < T"
    using less D0 by (simp add: T_def q_def pos_divide_less_eq mult.commute)
  then have gap: "s \<le> T - 2 powi (ET - 52)"
    using s k TN ET ET_hi by (intro float_gap [where k = k and e = e and N = "Dn * Y"])
  have "D * 2 powi (Eq - 53) < 2 powi (a + 1) * 2 powi (Eq - 53)"
    using D(3) by (intro mult_strict_right_mono) simp_all
  also have "\<dots> = 2 powi (a + Eq - 52)"
    using powi_add [of "a + 1" "Eq - 53"] by (simp add: algebra_simps)
  also have "\<dots> \<le> 2 powi (ET - 52)" using ET_lo by (intro powi_le) simp
  finally have "D * 2 powi (Eq - 53) < 2 powi (ET - 52)" .
  with gap have "s < D * q - D * 2 powi (Eq - 53)" by (simp add: T_def)
  then have "s < (q - 2 powi (Eq - 53)) * D" by (simp add: algebra_simps)
  then have z: "s / D < q - 2 powi (Eq - 53)"
    using D0 by (simp add: pos_divide_less_eq)
  obtain m :: int where m: "(2::real) powi (- 32) = of_int m * 2 powi (Eq - 52)"
    using powi_shift_int [of "Eq - 52" "- 32"] Eq_hi by auto
  have qM: "q = of_int (Y * m) * 2 powi (Eq - 52)"
    by (simp only: q_def m of_int_mult mult.assoc)
  have "0 \<le> s / D" using s0 D0 by simp
  moreover have "s / D < 2 powi (Eq + 1)"
  proof -
    have "s / D < q" using less by (simp only: q_def)
    with Eq(2) show ?thesis by linarith
  qed
  moreover have "- 1022 \<le> Eq" using Eq_lo by simp
  ultimately have "fl (s / D) < q"
    using qM z by (rule fl_less)
  then show ?thesis by (simp only: q_def)
qed

section \<open>The range codec without rounding error\<close>

lemma fl_int: "\<bar>k\<bar> \<le> 2 ^ 53 \<Longrightarrow> fl (of_int k) = of_int k"
  using fl_representable [of k 0] by simp

lemma fl_dyadic:
  assumes "\<bar>k\<bar> \<le> 2 ^ 53" "n \<le> 1074"
  shows "fl (of_int k / 2 ^ n) = of_int k / 2 ^ n"
proof -
  have "(2::real) powi (- int n) = 1 / 2 ^ n"
    by (simp add: power_int_minus divide_inverse)
  then show ?thesis
    using fl_representable [of k "- int n"] assms by simp
qed

lemma fl_scale:
  assumes "0 \<le> n"
  shows "fl (fl x * 2 powi n) = fl x * 2 powi n"
proof -
  obtain k e where k: "\<bar>k\<bar> \<le> 2 ^ 53" "- 1074 \<le> e" "fl x = of_int k * 2 powi e"
    using fl_exists [of x] by blast
  have "fl x * 2 powi n = of_int k * 2 powi (e + n)"
    by (simp add: k(3) powi_add)
  moreover have "fl (of_int k * 2 powi (e + n)) = of_int k * 2 powi (e + n)"
    using k(1,2) assms by (intro fl_representable) simp_all
  ultimately show ?thesis by simp
qed

lemma fl_nonneg_rep:
  assumes "0 \<le> fl x"
  shows "\<exists>k e. 0 \<le> k \<and> k \<le> 2 ^ 53 \<and> - 1074 \<le> e \<and> fl x = of_int k * 2 powi e"
proof -
  obtain k e where k: "\<bar>k\<bar> \<le> 2 ^ 53" "- 1074 \<le> e" "fl x = of_int k * 2 powi e"
    using fl_exists [of x] by blast
  have "0 \<le> k"
  proof (rule ccontr)
    assume "\<not> 0 \<le> k"
    then have "of_int k < (0::real)" by simp
    then have "of_int k * 2 powi e < (0::real)"
      by (intro mult_neg_pos) simp_all
    with assms k(3) show False by simp
  qed
  with k show ?thesis by auto
qed

text \<open>
  Dividing a float64 \<open>s\<close> of \<open>[0, D]\<close> by \<open>D\<close>, 180 or 360, and rounding never crosses a
  multiple of \<open>2 ^ - 32\<close>: the floor of the scaled quotient is that of the exact one.
\<close>

lemma quotient_floor:
  fixes s D :: real
  assumes s: "s = of_int k * 2 powi e" and k: "0 \<le> k" "k \<le> 2 ^ 53"
    and D: "D = of_int Dn" "2 powi a < D" "D < 2 powi (a + 1)" "a \<le> 20"
    and sD: "s \<le> D"
  shows "\<lfloor>fl (s / D) * 2 ^ 32\<rfloor> = \<lfloor>s / D * 2 ^ 32\<rfloor>"
proof -
  define q where "q = s / D"
  define p where "p = fl q"
  define F where "F = \<lfloor>q * 2 ^ 32\<rfloor>"
  have D0: "0 < D" using D(2) powi_pos [of a] by linarith
  have s0: "0 \<le> s" using k(1) by (simp add: s)
  have q0: "0 \<le> q" and q1: "q \<le> 1" using s0 sD D0 by (simp_all add: q_def)
  have p32: "(2::real) powi (- 32) = 1 / 2 ^ 32"
    by simp
  have "0 \<le> q * 2 ^ 32"
    using q0 by (intro mult_nonneg_nonneg) simp_all
  then have F0: "0 \<le> F" unfolding F_def by (simp only: zero_le_floor)
  have lo: "of_int F \<le> q * 2 ^ 32" and hi: "q * 2 ^ 32 < of_int F + 1"
    unfolding F_def by linarith+
  have "q * 2 ^ 32 \<le> 1 * 2 ^ 32"
    using q1 by (intro mult_right_mono) simp_all
  with lo have "(of_int F :: real) \<le> of_int (2 ^ 32)" by simp
  then have F1: "F \<le> 2 ^ 32" by (simp only: of_int_le_iff)
  have "of_int F * 2 powi (- 32) \<le> q"
    using lo by (simp add: p32 field_simps)
  then have "of_int F * 2 powi (- 32) \<le> fl q"
    using F0 F1 by (intro fl_ge [where k = F and e = "- 32"]) simp_all
  then have lo': "of_int F \<le> p * 2 ^ 32"
    by (simp add: p32 field_simps p_def)
  have hi': "p * 2 ^ 32 < of_int F + 1"
  proof (cases "F = 2 ^ 32")
    case True
    then have "1 * (2::real) ^ 32 \<le> q * 2 ^ 32" using lo by simp
    then have "1 \<le> q" by (simp only: mult_le_cancel_right_pos zero_less_power zero_less_numeral)
    with q1 have "q = 1" by simp
    moreover have "fl 1 = 1" using fl_int [of 1] by simp
    ultimately show ?thesis using True by (simp add: p_def)
  next
    case False
    with F1 have Y: "F + 1 \<le> 2 ^ 32" by simp
    have "q < of_int (F + 1) * 2 powi (- 32)"
      using hi by (simp add: p32 field_simps)
    then have "s / D < of_int (F + 1) * 2 powi (- 32)"
      by (simp only: q_def)
    then have "fl (s / D) < of_int (F + 1) * 2 powi (- 32)"
      using s k D F0 Y by (intro fl_quotient_less [where k = k and e = e and Dn = Dn and a = a]) simp_all
    then have "p < of_int (F + 1) * 2 powi (- 32)"
      by (simp only: p_def q_def)
    then show ?thesis by (simp add: p32 field_simps)
  qed
  have "\<lfloor>p * 2 ^ 32\<rfloor> = F"
    using lo' hi' by (intro floor_unique) simp_all
  then show ?thesis by (simp only: F_def p_def q_def)
qed

lemma half_width:
  assumes "r = 90 \<or> r = 180"
  shows "fl (2 * r) = 2 * r"
    and "\<exists>Dn a. 2 * r = of_int Dn \<and> 2 powi a < 2 * r \<and> 2 * r < 2 powi (a + 1) \<and> a \<le> 20"
proof -
  show "fl (2 * r) = 2 * r"
    using assms fl_int [of 180] fl_int [of 360] by auto
  from assms show "\<exists>Dn a. 2 * r = of_int Dn \<and> 2 powi a < 2 * r \<and> 2 * r < 2 powi (a + 1) \<and> a \<le> 20"
  proof
    assume "r = 90"
    then show ?thesis by (intro exI [of _ 180] exI [of _ 7]) simp
  next
    assume "r = 180"
    then show ?thesis by (intro exI [of _ 360] exI [of _ 8]) simp
  qed
qed

lemma encodeRange_exact:
  assumes r: "r = 90 \<or> r = 180" and x: "- r \<le> x" "x \<le> r" and sum: "fl (x + r) = x + r"
  shows "encodeRange x r = word_of_int \<lfloor>(x + r) / (2 * r) * 2 ^ 32\<rfloor>"
proof -
  define s where "s = x + r"
  have s0: "0 \<le> s" and fls: "fl s = s" using x sum by (simp_all add: s_def)
  then have "0 \<le> fl s" by simp
  then obtain k e where k: "0 \<le> k" "k \<le> 2 ^ 53" "fl s = of_int k * 2 powi e"
    using fl_nonneg_rep [of s] by blast
  then have sk: "s = of_int k * 2 powi e" using fls by simp
  obtain Dn a where D: "2 * r = of_int Dn" "2 powi a < 2 * r" "2 * r < 2 powi (a + 1)" "a \<le> 20"
    using half_width(2) [OF r] by blast
  have sD: "s \<le> 2 * r" using x by (simp add: s_def)
  have fl_eq: "\<lfloor>fl (s / (2 * r)) * 2 ^ 32\<rfloor> = \<lfloor>s / (2 * r) * 2 ^ 32\<rfloor>"
    using sk k(1,2) D sD by (rule quotient_floor)
  have r0: "0 < r" using r by auto
  have "0 \<le> s / (2 * r)" using s0 r0 by simp
  then have p0: "0 \<le> fl (s / (2 * r))" by (rule fl_nonneg)
  have scale: "fl (fl (s / (2 * r)) * 2 ^ 32) = fl (s / (2 * r)) * 2 ^ 32"
    using fl_scale [of 32 "s / (2 * r)"] by simp
  have "encodeRange x r = uint32_of_float64 (fl (fl (fl (x + r) / fl (2 * r)) * 2 ^ 32))"
    by (simp only: encodeRange_def Let_def fadd_def fdiv_def fmul_def exp232_def)
  also have "\<dots> = uint32_of_float64 (fl (s / (2 * r)) * 2 ^ 32)"
    by (simp only: sum half_width(1) [OF r]) (simp only: s_def [symmetric] scale)
  also have "\<dots> = word_of_int \<lfloor>fl (s / (2 * r)) * 2 ^ 32\<rfloor>"
    using p0 by (simp add: uint32_of_float64_def)
  finally show ?thesis by (simp only: fl_eq [unfolded s_def] s_def)
qed

lemma decodeRange_exact:
  assumes r: "r = 90 \<or> r = 180"
  shows "decodeRange X r = 2 * r * (real (unat X) / 2 ^ 32) - r"
proof -
  define n where "n = int (unat X)"
  have "unat X < 2 ^ 32" using unsigned_less [of X, where 'a = nat] by simp
  then have "int (unat X) < int (2 ^ 32)" by (simp only: of_nat_less_iff)
  then have n: "0 \<le> n" "n < 2 ^ 32"
    unfolding n_def by simp_all
  have rn: "real (unat X) = of_int n" by (simp add: n_def)
  have p: "fl (of_int n / 2 ^ 32) = of_int n / 2 ^ 32"
    using n by (intro fl_dyadic) simp_all
  from r obtain c :: int where c: "r = of_int c" "c = 90 \<or> c = 180" by auto
  have m: "fl (of_int (2 * c) * (of_int n / 2 ^ 32)) = of_int (2 * c) * (of_int n / 2 ^ 32)"
  proof -
    have "\<bar>2 * c * n\<bar> \<le> 360 * 2 ^ 32" using n c(2) by (auto simp: abs_mult intro: mult_mono)
    then have "fl (of_int (2 * c * n) / 2 ^ 32) = of_int (2 * c * n) / 2 ^ 32"
      by (intro fl_dyadic) simp_all
    moreover have "of_int (2 * c * n) / 2 ^ 32 = (of_int (2 * c) * (of_int n / 2 ^ 32) :: real)"
      by simp
    ultimately show ?thesis by (simp only:)
  qed
  have d: "fl (of_int (2 * c) * (of_int n / 2 ^ 32) - of_int c)
      = of_int (2 * c) * (of_int n / 2 ^ 32) - of_int c"
  proof -
    have "\<bar>2 * c * n\<bar> \<le> 360 * 2 ^ 32" using n c(2) by (auto simp: abs_mult intro: mult_mono)
    then have "\<bar>2 * c * n - c * 2 ^ 32\<bar> \<le> 2 ^ 53" using c(2) by auto
    then have "fl (of_int (2 * c * n - c * 2 ^ 32) / 2 ^ 32) = of_int (2 * c * n - c * 2 ^ 32) / 2 ^ 32"
      by (intro fl_dyadic) simp_all
    moreover have "of_int (2 * c * n - c * 2 ^ 32) / 2 ^ 32
        = (of_int (2 * c) * (of_int n / 2 ^ 32) - of_int c :: real)"
      by (simp add: field_simps)
    ultimately show ?thesis by (simp only:)
  qed
  have "fl (2 * r) = of_int (2 * c)"
    using half_width(1) [OF r] by (simp add: c(1))
  then have "decodeRange X r = of_int (2 * c) * (of_int n / 2 ^ 32) - of_int c"
    unfolding decodeRange_def Let_def float64_of_uint32_def exp232_def fdiv_def fmul_def
      fsub_def rn p
    by (simp only: m c(1) d)
  then show ?thesis by (simp only: rn c(1) of_int_mult of_int_numeral)
qed

text \<open>At the upper end of the range the quotient is 1 and the code wraps around.\<close>

lemma fl_double:
  assumes "fl r = r"
  shows "fl (2 * r) = 2 * r"
proof -
  obtain k e where k: "\<bar>k\<bar> \<le> 2 ^ 53" "- 1074 \<le> e" "fl r = of_int k * 2 powi e"
    using fl_exists [of r] by blast
  then have "2 * r = of_int k * 2 powi (e + 1)"
    using assms by (simp add: powi_add)
  moreover have "fl (of_int k * 2 powi (e + 1)) = of_int k * 2 powi (e + 1)"
    using k(1,2) by (intro fl_representable) simp_all
  ultimately show ?thesis by simp
qed

lemma encodeRange_top:
  assumes "0 < r" "fl r = r"
  shows "encodeRange r r = 0"
proof -
  have a: "fl (r + r) = 2 * r" using fl_double [OF assms(2)] by simp
  have b: "fl (2 * r) = 2 * r" using assms(2) by (rule fl_double)
  have c: "fl (2 * r / (2 * r)) = 1" using assms(1) fl_int [of 1] by simp
  have d: "fl (1 * 2 ^ 32) = 2 ^ 32" using fl_int [of "2 ^ 32"] by simp
  have "encodeRange r r = uint32_of_float64 (2 ^ 32)"
    by (simp only: encodeRange_def Let_def fadd_def fmul_def fdiv_def exp232_def a b c d)
  then show ?thesis by (simp add: uint32_of_float64_def)
qed

section \<open>One axis of a bounding box\<close>





section \<open>The box of an integer hash\<close>



lemma sint_of_nat_small:
  assumes "n \<le> 64"
  shows "sint (of_nat n :: uint) = int n"
proof -
  have "int n < 2 ^ 63" using assms by simp
  then have "signed_take_bit 63 (int n) = int n"
    by (intro signed_take_bit_int_eq_self) simp_all
  then show ?thesis by (simp add: signed_of_nat)
qed

lemma Ldexp_exact:
  assumes "\<bar>k\<bar> \<le> 2 ^ 53" "m \<le> 1074"
  shows "Ldexp (of_int k) (- int m) = of_int k * 2 powi (- int m)"
  unfolding Ldexp_def using assms by (intro fl_representable) simp_all

lemma errorWithPrecision_of_nat:
  assumes "n \<le> 64"
  shows "errorWithPrecision (of_nat n)
    = (180 * 2 powi (- int (n div 2)), 360 * 2 powi (- int (n - n div 2)))"
proof -
  have "go_quot (int n) 2 = int (n div 2)"
    by (cases "n = 0") (simp_all add: go_quot_def zdiv_int)
  moreover have "int n - int (n div 2) = int (n - n div 2)"
    by simp
  moreover have "Ldexp 180 (- int (n div 2)) = 180 * 2 powi (- int (n div 2))"
    using Ldexp_exact [of 180 "n div 2"] assms by simp
  moreover have "Ldexp 360 (- int (n - n div 2)) = 360 * 2 powi (- int (n - n div 2))"
    using Ldexp_exact [of 360 "n - n div 2"] assms by simp
  ultimately show ?thesis
    using assms by (simp only: errorWithPrecision_def Let_def sint_of_nat_small)
qed



section \<open>The codec at particular points\<close>

lemma maxDecimalPower_eq:
  assumes "0 < r" "10 powi m \<le> r" "r < 10 powi (m + 1)"
  shows "maxDecimalPower r = Pow10 m"
proof -
  have "(10::real) powr real_of_int m = 10 powi m"
    and "(10::real) powr real_of_int (m + 1) = 10 powi (m + 1)"
    by (rule powr_real_of_int'; simp)+
  with assms have "\<lfloor>log 10 r\<rfloor> = m"
    using floor_log_eq_powr_iff [of r 10 m] by simp
  then show ?thesis
    by (simp add: maxDecimalPower_def Log10_def Floor_def int_of_float64_def)
qed

lemma ev_Pow10: "Pow10 (- 5) = 5902958103587057 / 2 ^ 69"
proof -
  have "fl 100000 = 100000" using fl_int [of 100000] by simp
  moreover have "fl (1 / 100000) = 5902958103587057 / 2 ^ 69"
    using fl_near [of "- 17" "1 / 100000" 5902958103587057] by simp
  ultimately show ?thesis by (simp add: Pow10_def fdiv_def)
qed

lemma ev_encodeRange_origin:
  "encodeRange 0 90 = 0x80000000" "encodeRange 0 180 = 0x80000000"
  using encodeRange_exact [of 90 0] encodeRange_exact [of 180 0] fl_int [of 90] fl_int [of 180]
  by simp_all


lemma ev_EncodeInt_origin: "EncodeInt 0 0 = 0xC000000000000000"
  by (simp add: EncodeInt_def encodeInt_def ev_encodeRange_origin interleave_def spread_def)

lemma ev_fl_near_90: "fl (- (1 / 2 ^ 60) + 90) = 90"
  using fl_near [of 6 "- (1 / 2 ^ 60) + 90" 6333186975989760] by simp

lemma ev_encodeRange_near: "encodeRange (- (1 / 2 ^ 60)) 90 = 0x80000000"
proof -
  have a: "fl (2 * 90) = 180" using fl_int [of 180] by simp
  have b: "fl (90 / 180) = 1 / 2" using fl_dyadic [of 1 1] by simp
  have c: "fl (1 / 2 * 2 ^ 32) = 2 ^ 31" using fl_int [of "2 ^ 31"] by simp
  have "encodeRange (- (1 / 2 ^ 60)) 90 = uint32_of_float64 (2 ^ 31)"
    by (simp only: encodeRange_def Let_def fadd_def fmul_def fdiv_def exp232_def
        ev_fl_near_90 a b c)
  then show ?thesis by (simp add: uint32_of_float64_def)
qed

lemma ev_decodeRange_long:
  "decodeRange 1 (1 + 1 / 2 ^ 52) = - (9007199250546690 / 2 ^ 53)"
proof -
  have u: "float64_of_uint32 1 = 1" by (simp add: float64_of_uint32_def)
  have a: "fl (1 / 2 ^ 32) = 1 / 2 ^ 32" using fl_dyadic [of 1 32] by simp
  have b: "fl (2 * (1 + 1 / 2 ^ 52)) = 4503599627370497 / 2 ^ 51"
    using fl_dyadic [of 4503599627370497 51] by simp
  have c: "fl (4503599627370497 / 2 ^ 51 * (1 / 2 ^ 32)) = 4503599627370497 / 2 ^ 83"
    using fl_dyadic [of 4503599627370497 83] by simp
  have d: "fl (4503599627370497 / 2 ^ 83 - (1 + 1 / 2 ^ 52)) = - (9007199250546690 / 2 ^ 53)"
    using fl_near [of "- 1" "4503599627370497 / 2 ^ 83 - (1 + 1 / 2 ^ 52)" "- 9007199250546690"]
    by simp
  show ?thesis
    by (simp only: decodeRange_def Let_def fdiv_def fmul_def fsub_def exp232_def u a b c d)
qed

text \<open>The hash \<open>h02000000\<close>, its box and the point that \<open>Round\<close> returns.\<close>

lemma ev_Decode_int: "base32encoding_Decode ''h02000000'' = 0x100080000000"
  by (simp add: base32encoding_Decode_def symbol_value_def alphabet_def)

lemma ev_BoundingBox:
  "BoundingBox ''h02000000''
    = \<lparr>MinLat = - (2835 / 32), MaxLat = - (2835 / 32) + 180 / 2 ^ 22,
       MinLng = 0, MaxLng = 360 / 2 ^ 23\<rparr>"
proof -
  have b: "(of_nat (5 * length ''h02000000'') :: uint) = 45" by simp
  have w: "deinterleave (push_bit (unat (64 - 45 :: uint)) 0x100080000000)
      = (0x02000000, 0x80000000)"
    by (simp add: deinterleave_def squash_def)
  have e: "errorWithPrecision 45 = (180 * 2 powi (- 22), 360 * 2 powi (- 23))"
    using errorWithPrecision_of_nat [of 45] by simp
  have d1: "decodeRange 0x02000000 90 = - (2835 / 32)"
    using decodeRange_exact [of 90 "0x02000000"] by simp
  have d2: "decodeRange 0x80000000 180 = 0"
    using decodeRange_exact [of 180 "0x80000000"] by simp
  have m1: "fadd (- (2835 / 32)) (180 * 2 powi (- 22)) = - (2835 / 32) + 180 / 2 ^ 22"
    using fl_dyadic [of "- 92897235" 20] by (simp add: fadd_def)
  have m2: "fadd 0 (360 * 2 powi (- 23)) = 360 / 2 ^ 23"
    using fl_dyadic [of 45 20] by (simp add: fadd_def)
  show ?thesis
    by (simp only: BoundingBox_def Let_def b ev_Decode_int BoundingBoxIntWithPrecision_def
        w e prod.case d1 d2 m1 m2)
qed

lemma ev_Round:
  "Round \<lparr>MinLat = - (2835 / 32), MaxLat = - (2835 / 32) + 180 / 2 ^ 22,
       MinLng = 0, MaxLng = 360 / 2 ^ 23\<rparr>
    = (- (6234230929489921 / 2 ^ 46), 0)"
proof -
  have w1: "fsub (- (2835 / 32) + 180 / 2 ^ 22) (- (2835 / 32)) = 45 / 2 ^ 20"
    using fl_dyadic [of 45 20] by (simp add: fsub_def)
  have w2: "fsub (360 / 2 ^ 23) 0 = 45 / 2 ^ 20"
    using fl_dyadic [of 45 20] by (simp add: fsub_def)
  have p: "maxDecimalPower (45 / 2 ^ 20) = 5902958103587057 / 2 ^ 69"
    using maxDecimalPower_eq [of "45 / 2 ^ 20" "- 5"] ev_Pow10 by simp
  have q1: "fdiv (- (2835 / 32)) (5902958103587057 / 2 ^ 69) = - 8859375"
    using fl_near [of 23 "- (2835 / 32) / (5902958103587057 / 2 ^ 69)" "- 4756340736000000"]
    by (simp add: fdiv_def)
  have c1: "Ceil (- 8859375) = - 8859375"
    by (simp add: Ceil_def)
  have m1: "fmul (- 8859375) (5902958103587057 / 2 ^ 69) = - (6234230929489921 / 2 ^ 46)"
    using fl_near [of 6 "- 8859375 * (5902958103587057 / 2 ^ 69)" "- 6234230929489921"]
    by (simp add: fmul_def)
  have q2: "fdiv 0 (5902958103587057 / 2 ^ 69) = 0"
    by (simp add: fdiv_def)
  have c2: "Ceil 0 = 0"
    by (simp add: Ceil_def)
  have m2: "fmul 0 (5902958103587057 / 2 ^ 69) = 0"
    by (simp add: fmul_def)
  show ?thesis
    by (simp only: Round_def Let_def Box.select_convs w1 w2 p q1 c1 m1 q2 c2 m2)
qed

lemma ev_Decode: "Decode ''h02000000'' = (- (6234230929489921 / 2 ^ 46), 0)"
  by (simp only: Decode_def Let_def ev_BoundingBox ev_Round)

lemma ev_encodeRange_below: "encodeRange (- (6234230929489921 / 2 ^ 46)) 90 = 0x01FFFFFF"
  using encodeRange_exact [of 90 "- (6234230929489921 / 2 ^ 46)"]
    fl_dyadic [of 98956046499839 46]
  by simp

lemma ev_reencode:
  "EncodeWithPrecision (- (6234230929489921 / 2 ^ 46)) 0 9 = Inr ''h00pbpbpb''"
proof -
  have h: "EncodeInt (- (6234230929489921 / 2 ^ 46)) 0 = interleave 0x01FFFFFF 0x80000000"
    by (simp only: EncodeInt_def encodeInt_def Let_def ev_encodeRange_below
        ev_encodeRange_origin)
  have i: "interleave 0x01FFFFFF 0x80000000 = 0x8001555555555555"
    by (simp add: interleave_def spread_def)
  have "EncodeWithPrecision (- (6234230929489921 / 2 ^ 46)) 0 9
      = slice_from (base32encoding_Encode (drop_bit (unat (64 - 5 * 9 :: uint)) 0x8001555555555555))
          (12 - 9)"
    by (simp only: EncodeWithPrecision_def EncodeIntWithPrecision_def Let_def h i)
  also have "\<dots> = Inr ''h00pbpbpb''"
    by (simp add: base32encoding_Encode_def alphabet_def slice_from_def upt_rec)
  finally show ?thesis .
qed

section \<open>Hashes and their boxes\<close>



lemma ConvertStringToInt_closed:
  assumes "k \<le> 12"
  shows "ConvertStringToInt (take k (base32encoding_Encode (drop_bit 4 (EncodeInt lat lng))))
    = (drop_bit (64 - 5 * k) (EncodeInt lat lng), of_nat (5 * k))"
  using assms by (simp add: ConvertStringToInt_def Decode_Encode_prefix min_def)


section \<open>Claims\<close>

text \<open>
  C1. For all 32-bit \<open>x\<close> and \<open>y\<close>, \<open>deinterleave (interleave x y)\<close> is \<open>(x, y)\<close>; bit \<open>i\<close>
  of \<open>x\<close> is bit \<open>2 i\<close> of \<open>interleave x y\<close> (the even positions) and bit \<open>i\<close> of \<open>y\<close> is
  bit \<open>2 i + 1\<close> (the odd positions).
\<close>

theorem deinterleave_interleave:
  "deinterleave (interleave x y) = (x, y)
   \<and> bit (interleave x y) (2 * i) = bit x i
   \<and> bit (interleave x y) (2 * i + 1) = bit y i"
  by (simp only: deinterleave_def squash_interleave squash_drop_interleave bit_interleave)
    simp

text \<open>
  C2. For every point and every \<open>k\<close> with \<open>1 \<le> k < 12\<close>, \<open>EncodeWithPrecision lat lng k\<close>
  returns the first \<open>k\<close> characters of \<open>EncodeWithPrecision lat lng (k + 1)\<close>, and the
  first \<open>k\<close> characters of the 12-character \<open>Encode lat lng\<close>. It holds for every
  latitude and longitude, those of the valid ranges included.
\<close>

theorem prefix_property:
  assumes "1 \<le> k" "k < 12"
  shows "\<exists>s t e. EncodeWithPrecision lat lng (of_nat k) = Inr s \<and> length s = k
    \<and> EncodeWithPrecision lat lng (of_nat (k + 1)) = Inr t \<and> length t = k + 1
    \<and> s = take k t
    \<and> Encode lat lng = Inr e \<and> length e = 12 \<and> s = take k e"
proof -
  let ?e = "base32encoding_Encode (drop_bit 4 (EncodeInt lat lng))"
  have "EncodeWithPrecision lat lng (of_nat k) = Inr (take k ?e)"
    using assms by (intro EncodeWithPrecision_closed) simp
  moreover have "EncodeWithPrecision lat lng (of_nat (k + 1)) = Inr (take (k + 1) ?e)"
    using assms by (intro EncodeWithPrecision_closed) simp
  moreover have "Encode lat lng = Inr (take 12 ?e)"
    unfolding Encode_def using EncodeWithPrecision_closed [of 12 lat lng] by simp
  ultimately show ?thesis
    using assms by (simp add: min_def)
qed

theorem prefix_property_witness:
  "EncodeWithPrecision 0 0 5 = Inr ''s0000'' \<and> EncodeWithPrecision 0 0 6 = Inr ''s00000''
   \<and> Encode 0 0 = Inr ''s00000000000''
   \<and> (\<exists>s t e. EncodeWithPrecision 0 0 5 = Inr s \<and> length s = 5
    \<and> EncodeWithPrecision 0 0 6 = Inr t \<and> length t = 6
    \<and> s = take 5 t
    \<and> Encode 0 0 = Inr e \<and> length e = 12 \<and> s = take 5 e)"
  using prefix_property [of 5 0 0]
  by (simp add: EncodeWithPrecision_def Encode_def EncodeIntWithPrecision_def
      ev_EncodeInt_origin base32encoding_Encode_def alphabet_def slice_from_def upt_rec)




text \<open>
  C4. For every point and every \<open>k\<close> up to 12, with \<open>H\<close> the string that
  \<open>EncodeWithPrecision lat lng k\<close> returns, \<open>ConvertStringToInt H\<close> is the pair of
  \<open>EncodeInt lat lng\<close> shifted right by \<open>64 - 5 k\<close> and of \<open>5 k\<close>.
\<close>

theorem ConvertStringToInt_EncodeWithPrecision:
  assumes "k \<le> 12"
  shows "\<exists>H. EncodeWithPrecision lat lng (of_nat k) = Inr H \<and> length H = k
    \<and> ConvertStringToInt H = (drop_bit (64 - 5 * k) (EncodeInt lat lng), 5 * of_nat k)"
proof -
  let ?H = "take k (base32encoding_Encode (drop_bit 4 (EncodeInt lat lng)))"
  have "EncodeWithPrecision lat lng (of_nat k) = Inr ?H"
    using assms by (rule EncodeWithPrecision_closed)
  moreover have "length ?H = k"
    using assms by simp
  moreover have "ConvertStringToInt ?H
      = (drop_bit (64 - 5 * k) (EncodeInt lat lng), 5 * of_nat k)"
    using ConvertStringToInt_closed [OF assms, of lat lng] by simp
  ultimately show ?thesis by blast
qed

theorem ConvertStringToInt_EncodeWithPrecision_witness:
  "EncodeWithPrecision 0 0 1 = Inr ''s''
   \<and> ConvertStringToInt ''s'' = (24, 5)
   \<and> drop_bit (64 - 5 * 1) (EncodeInt 0 0) = 24
   \<and> (\<exists>H. EncodeWithPrecision 0 0 1 = Inr H \<and> length H = 1
        \<and> ConvertStringToInt H = (drop_bit (64 - 5 * 1) (EncodeInt 0 0), 5))"
  using ConvertStringToInt_EncodeWithPrecision [of 1 0 0]
  by (simp add: EncodeWithPrecision_def EncodeIntWithPrecision_def ev_EncodeInt_origin
      base32encoding_Encode_def alphabet_def slice_from_def upt_rec
      ConvertStringToInt_def base32encoding_Decode_def symbol_value_def)

text \<open>
  C5, as amended. For a hash \<open>H\<close> of at most 12 alphabet symbols, the integer that
  \<open>ConvertStringToInt H\<close> returns holds the string right-aligned: the 5-bit value of
  symbol \<open>j\<close> (its index in the alphabet) is in bits \<open>5 (length H - 1 - j) + 4\<close> down to
  \<open>5 (length H - 1 - j)\<close>, the first symbol in the most significant of the \<open>5 * length H\<close>
  low-order bits, and every bit above them is zero.
\<close>

theorem Decode_right_aligned:
  assumes "\<forall>c \<in> set H. base32encoding_ValidByte c" "length H \<le> 12"
  shows "drop_bit (5 * length H) (fst (ConvertStringToInt H)) = 0
    \<and> snd (ConvertStringToInt H) = 5 * of_nat (length H)
    \<and> (\<forall>j<length H.
          take_bit 5 (drop_bit (5 * (length H - 1 - j)) (fst (ConvertStringToInt H)))
            = symbol_value (H ! j)
          \<and> alphabet ! unat (symbol_value (H ! j)) = H ! j)"
proof (intro conjI allI impI)
  show "drop_bit (5 * length H) (fst (ConvertStringToInt H)) = 0"
    by (simp add: ConvertStringToInt_def Decode_head)
  show "snd (ConvertStringToInt H) = 5 * of_nat (length H)"
    by (simp add: ConvertStringToInt_def)
next
  fix j assume j: "j < length H"
  with assms show "take_bit 5 (drop_bit (5 * (length H - 1 - j)) (fst (ConvertStringToInt H)))
      = symbol_value (H ! j)"
    by (simp only: ConvertStringToInt_def fst_conv Decode_group)
  from j assms have "H ! j \<in> set alphabet"
    by (simp add: base32encoding_ValidByte_def)
  then show "alphabet ! unat (symbol_value (H ! j)) = H ! j"
    by (rule alphabet_symbol_value)
qed

theorem Decode_right_aligned_witness:
  "ConvertStringToInt ''ezs42'' = (14672002, 25)
   \<and> drop_bit 25 (fst (ConvertStringToInt ''ezs42'')) = 0
   \<and> take_bit 5 (drop_bit 15 (fst (ConvertStringToInt ''ezs42''))) = 31
   \<and> symbol_value CHR ''z'' = 31
   \<and> alphabet ! 31 = CHR ''z''"
  using Decode_right_aligned [of "''ezs42''"]
  by (simp add: ConvertStringToInt_def base32encoding_Decode_def symbol_value_def alphabet_def
      base32encoding_ValidByte_def)

text \<open>
  C5 as stated, with the decoded bits at the top of the word and a zero tail, fails: the
  one-symbol hash \<open>''s''\<close> decodes to 24, the value of the symbol in the five low-order
  bits, so that the 59 low-order bits are not zero and the five high-order bits are.
\<close>

theorem Decode_zero_tail_counterexample:
  "Validate ''s'' = None
   \<and> ConvertStringToInt ''s'' = (24, 5)
   \<and> take_bit (64 - 5 * length ''s'') (fst (ConvertStringToInt ''s'')) \<noteq> 0
   \<and> drop_bit (64 - 5 * length ''s'') (fst (ConvertStringToInt ''s'')) = 0"
  by (simp add: ConvertStringToInt_def base32encoding_Decode_def symbol_value_def alphabet_def
      Validate_def base32encoding_ValidByte_def)

text \<open>
  C6. The claim is that \<open>EncodeWithPrecision\<close> of the point \<open>Decode H\<close>, at the length of
  \<open>H\<close>, is \<open>H\<close> again. The valid 9-character hash \<open>''h02000000''\<close> is that of the cell whose
  latitudes begin at \<open>- 88.59375\<close>, 0.0000429 degrees wide. \<open>Round\<close> takes \<open>x = Pow10 (- 5)\<close>,
  the float64 next above \<open>10 ^ - 5\<close>; the quotient \<open>MinLat / x\<close> rounds to the integer
  \<open>- 8859375\<close>, and the product \<open>- 8859375 * x\<close> rounds to the float64 next below
  \<open>- 88.59375\<close>. The latitude that \<open>Decode\<close> returns is outside the box, in the cell to the
  south, and it encodes to \<open>''h00pbpbpb''\<close>.
\<close>

theorem Decode_then_Encode_h02000000:
  "Validate ''h02000000'' = None
   \<and> MinLat (BoundingBox ''h02000000'') = - (2835 / 32)
   \<and> Decode ''h02000000'' = (- (6234230929489921 / 2 ^ 46), 0)
   \<and> fst (Decode ''h02000000'') < MinLat (BoundingBox ''h02000000'')
   \<and> \<not> Contains (BoundingBox ''h02000000'')
        (fst (Decode ''h02000000'')) (snd (Decode ''h02000000''))
   \<and> EncodeWithPrecision (fst (Decode ''h02000000'')) (snd (Decode ''h02000000'')) 9
        = Inr ''h00pbpbpb''
   \<and> EncodeWithPrecision (fst (Decode ''h02000000'')) (snd (Decode ''h02000000'')) 9
        \<noteq> Inr ''h02000000''"
proof -
  have v: "Validate ''h02000000'' = None"
    by (simp add: Validate_def base32encoding_ValidByte_def alphabet_def)
  have e: "EncodeWithPrecision (fst (Decode ''h02000000'')) (snd (Decode ''h02000000'')) 9
      = Inr ''h00pbpbpb''"
    by (simp only: ev_Decode fst_conv snd_conv ev_reencode)
  have m: "MinLat (BoundingBox ''h02000000'') = - (2835 / 32)"
    by (simp only: ev_BoundingBox Box.select_convs)
  have l: "fst (Decode ''h02000000'') < MinLat (BoundingBox ''h02000000'')"
    by (simp only: ev_Decode fst_conv m) simp
  then have c: "\<not> Contains (BoundingBox ''h02000000'')
      (fst (Decode ''h02000000'')) (snd (Decode ''h02000000''))"
    by (simp add: Contains_def)
  have n: "EncodeWithPrecision (fst (Decode ''h02000000'')) (snd (Decode ''h02000000'')) 9
      \<noteq> Inr ''h02000000''"
    by (simp only: e) simp
  from v m ev_Decode l c e n show ?thesis by (intro conjI)
qed

text \<open>
  C7. \<open>EncodeInt lat lng\<close> is \<open>interleave (encodeRange lat 90) (encodeRange lng 180)\<close>: bit
  \<open>i\<close> of the latitude code is bit \<open>2 i\<close> of the hash and bit \<open>i\<close> of the longitude code is
  bit \<open>2 i + 1\<close>. For \<open>bits\<close> from 1 to 64, \<open>EncodeIntWithPrecision lat lng bits\<close> is that
  hash shifted right by \<open>64 - bits\<close>, a value below \<open>2 ^ bits\<close>.
\<close>

theorem EncodeInt_layout:
  "EncodeInt lat lng = interleave (encodeRange lat 90) (encodeRange lng 180)
   \<and> bit (EncodeInt lat lng) (2 * i) = bit (encodeRange lat 90) i
   \<and> bit (EncodeInt lat lng) (2 * i + 1) = bit (encodeRange lng 180) i
   \<and> (1 \<le> bits \<and> bits \<le> 64 \<longrightarrow>
        EncodeIntWithPrecision lat lng (of_nat bits) = drop_bit (64 - bits) (EncodeInt lat lng)
        \<and> unat (EncodeIntWithPrecision lat lng (of_nat bits)) < 2 ^ bits)"
proof (intro conjI impI)
  show "EncodeInt lat lng = interleave (encodeRange lat 90) (encodeRange lng 180)"
    by (simp add: EncodeInt_def encodeInt_def)
  show "bit (EncodeInt lat lng) (2 * i) = bit (encodeRange lat 90) i"
    by (simp add: bit_EncodeInt)
  show "bit (EncodeInt lat lng) (2 * i + 1) = bit (encodeRange lng 180) i"
    by (simp add: bit_EncodeInt)
next
  assume b: "1 \<le> bits \<and> bits \<le> 64"
  then show eq: "EncodeIntWithPrecision lat lng (of_nat bits)
      = drop_bit (64 - bits) (EncodeInt lat lng)"
    by (simp add: EncodeIntWithPrecision_def unat_64_minus)
  have "unat (drop_bit (64 - bits) (EncodeInt lat lng)) = unat (EncodeInt lat lng) div 2 ^ (64 - bits)"
    by (simp only: unat_drop_bit_eq) (simp only: drop_bit_eq_div)
  moreover have "unat (EncodeInt lat lng) < 2 ^ 64"
    using unsigned_less [of "EncodeInt lat lng"] by simp
  moreover have "(2::nat) ^ 64 = 2 ^ bits * 2 ^ (64 - bits)"
    using b by (simp flip: power_add)
  ultimately show "unat (EncodeIntWithPrecision lat lng (of_nat bits)) < 2 ^ bits"
    unfolding eq by (simp add: less_mult_imp_div_less)
qed

theorem EncodeInt_layout_witness:
  "EncodeInt 0 0 = interleave (encodeRange 0 90) (encodeRange 0 180)
   \<and> EncodeInt 0 0 = 0xC000000000000000
   \<and> EncodeIntWithPrecision 0 0 5 = drop_bit 59 (EncodeInt 0 0)
   \<and> EncodeIntWithPrecision 0 0 5 = 24
   \<and> unat (EncodeIntWithPrecision 0 0 5) < 2 ^ 5"
  using EncodeInt_layout [of 0 0 0 5]
  by (simp add: EncodeIntWithPrecision_def ev_EncodeInt_origin)

text \<open>
  C8, as amended. For \<open>r\<close> of 90 or 180, the two values the program uses, and every \<open>x\<close>
  in \<open>[-r, r]\<close> whose float64 sum \<open>x + r\<close> is exact, \<open>encodeRange x r\<close> is the floor of
  \<open>(x + r) / (2 r) * 2 ^ 32\<close> truncated to 32 bits; for these \<open>r\<close> and every 32-bit \<open>X\<close>,
  \<open>decodeRange X r\<close> is \<open>2 r (X / 2 ^ 32) - r\<close>. For every float64 \<open>r > 0\<close>,
  \<open>encodeRange r r\<close> wraps around to 0.
\<close>

theorem range_codec_exact:
  "(r = 90 \<or> r = 180 \<longrightarrow>
      (- r \<le> x \<and> x \<le> r \<and> fadd x r = x + r \<longrightarrow>
          encodeRange x r = word_of_int \<lfloor>(x + r) / (2 * r) * 2 ^ 32\<rfloor>)
      \<and> decodeRange X r = 2 * r * (real (unat X) / 2 ^ 32) - r)
   \<and> (0 < r \<and> fl r = r \<longrightarrow> encodeRange r r = 0)"
proof (intro conjI impI)
  assume r: "r = 90 \<or> r = 180"
  then show "decodeRange X r = 2 * r * (real (unat X) / 2 ^ 32) - r"
    by (rule decodeRange_exact)
  assume "- r \<le> x \<and> x \<le> r \<and> fadd x r = x + r"
  then have "- r \<le> x" "x \<le> r" "fl (x + r) = x + r"
    by (simp_all only: fadd_def)
  with r show "encodeRange x r = word_of_int \<lfloor>(x + r) / (2 * r) * 2 ^ 32\<rfloor>"
    by (rule encodeRange_exact)
next
  assume "0 < r \<and> fl r = r"
  then show "encodeRange r r = 0"
    by (intro encodeRange_top) simp_all
qed

theorem range_codec_exact_witness:
  "fadd (363 / 8) 90 = 363 / 8 + 90
   \<and> encodeRange (363 / 8) 90 = word_of_int \<lfloor>(363 / 8 + 90 :: real) / (2 * 90) * 2 ^ 32\<rfloor>
   \<and> encodeRange (363 / 8) 90 = 0xC0888888
   \<and> decodeRange 0xC0888888 90 = 2 * 90 * (real (unat (0xC0888888 :: uint32)) / 2 ^ 32) - 90
   \<and> fl 90 = 90
   \<and> encodeRange 90 90 = 0"
proof -
  have s: "fadd (363 / 8) 90 = 363 / 8 + 90"
    using fl_dyadic [of 1083 3] by (simp add: fadd_def)
  have f: "fl 90 = 90" using fl_int [of 90] by simp
  from range_codec_exact [of 90 "363 / 8" "0xC0888888"] s f show ?thesis
    by simp
qed

text \<open>
  C8 as stated, for every \<open>r > 0\<close> and every \<open>x\<close> in \<open>[-r, r]\<close>, fails. At \<open>x = - 2 ^ - 60\<close> and
  \<open>r = 90\<close> the sum \<open>x + r\<close> rounds to 90 and \<open>encodeRange\<close> returns \<open>2 ^ 31\<close>, where the
  floor of the exact quotient is \<open>2 ^ 31 - 1\<close>. At \<open>r = 1 + 2 ^ - 52\<close> and \<open>X = 1\<close> the
  difference \<open>2 r p - r\<close> of \<open>decodeRange\<close> needs more than 53 bits and is rounded.
\<close>

theorem range_codec_counterexample:
  "encodeRange (- (1 / 2 ^ 60)) 90 = 0x80000000
   \<and> (word_of_int \<lfloor>(- (1 / 2 ^ 60) + 90 :: real) / (2 * 90) * 2 ^ 32\<rfloor> :: uint32) = 0x7FFFFFFF
   \<and> decodeRange 1 (1 + 1 / 2 ^ 52) = - (9007199250546690 / 2 ^ 53)
   \<and> decodeRange 1 (1 + 1 / 2 ^ 52)
       \<noteq> 2 * (1 + 1 / 2 ^ 52) * (real (unat (1 :: uint32)) / 2 ^ 32) - (1 + 1 / 2 ^ 52)"
proof -
  have a: "(word_of_int \<lfloor>(- (1 / 2 ^ 60) + 90 :: real) / (2 * 90) * 2 ^ 32\<rfloor> :: uint32) = 0x7FFFFFFF"
    by simp
  have b: "decodeRange 1 (1 + 1 / 2 ^ 52)
      \<noteq> 2 * (1 + 1 / 2 ^ 52) * (real (unat (1 :: uint32)) / 2 ^ 32) - (1 + 1 / 2 ^ 52)"
    by (simp only: ev_decodeRange_long) simp
  from ev_encodeRange_near a ev_decodeRange_long b show ?thesis by (intro conjI)
qed

text \<open>
  C9. \<open>Validate h\<close> returns no error exactly when \<open>5 * length h \<le> 64\<close> and every byte of
  \<open>h\<close> is an alphabet symbol. A hash of 13 or more characters is "too long", whatever
  its bytes; a shorter one with a byte outside the alphabet is an "invalid character"
  naming the first such byte, and \<open>a\<close>, \<open>i\<close>, \<open>l\<close>, \<open>o\<close> and the uppercase letters are such
  bytes. Every string that \<open>Encode\<close> or \<open>EncodeWithPrecision\<close> with \<open>chars \<le> 12\<close> returns
  passes.
\<close>

theorem Validate_verdicts:
  "(Validate h = None \<longleftrightarrow> 5 * length h \<le> 64 \<and> (\<forall>c \<in> set h. c \<in> set alphabet))
   \<and> (13 \<le> length h \<longrightarrow> Validate h = Some TooLong)
   \<and> (length h \<le> 12 \<and> (\<exists>c \<in> set h. c \<notin> set alphabet) \<longrightarrow>
        Validate h = Some (InvalidCharacter (hd (dropWhile (\<lambda>c. c \<in> set alphabet) h))))
   \<and> (length h \<le> 12 \<and> (\<exists>c \<in> set h. c \<in> set ''ailoABCDEFGHIJKLMNOPQRSTUVWXYZ'') \<longrightarrow>
        (\<exists>b. Validate h = Some (InvalidCharacter b)))
   \<and> (chars \<le> 12 \<longrightarrow> (\<exists>s. EncodeWithPrecision lat lng chars = Inr s \<and> Validate s = None))
   \<and> (\<exists>s. Encode lat lng = Inr s \<and> Validate s = None)"
proof (intro conjI impI)
  show "Validate h = None \<longleftrightarrow> 5 * length h \<le> 64 \<and> (\<forall>c \<in> set h. c \<in> set alphabet)"
    by (simp add: Validate_def check_characters_None)
  show "Validate h = Some TooLong" if "13 \<le> length h"
    using that by (simp add: Validate_def)
  show "Validate h = Some (InvalidCharacter (hd (dropWhile (\<lambda>c. c \<in> set alphabet) h)))"
    if "length h \<le> 12 \<and> (\<exists>c \<in> set h. c \<notin> set alphabet)"
    using that by (simp add: Validate_def check_characters_first)
  show "\<exists>b. Validate h = Some (InvalidCharacter b)"
    if h: "length h \<le> 12 \<and> (\<exists>c \<in> set h. c \<in> set ''ailoABCDEFGHIJKLMNOPQRSTUVWXYZ'')"
  proof -
    have "c \<notin> set alphabet" if "c \<in> set ''ailoABCDEFGHIJKLMNOPQRSTUVWXYZ''" for c
      using that by (auto simp: alphabet_def)
    with h have "\<exists>c \<in> set h. c \<notin> set alphabet" by blast
    with h show ?thesis by (simp add: Validate_def check_characters_first)
  qed
  show "\<exists>s. EncodeWithPrecision lat lng chars = Inr s \<and> Validate s = None" if "chars \<le> 12"
  proof -
    from that obtain k where "k \<le> 12" "chars = of_nat k" "unat chars = k"
      by (rule word_le_12_cases)
    then show ?thesis
      by (simp add: EncodeWithPrecision_closed Validate_Encode_prefix del: of_nat_mult)
  qed
  show "\<exists>s. Encode lat lng = Inr s \<and> Validate s = None"
    unfolding Encode_def using EncodeWithPrecision_closed [of 12 lat lng]
    by (simp add: Validate_Encode)
qed

theorem Validate_verdicts_witness:
  "Validate ''ezs42'' = None
   \<and> Validate ''0123456789bcd'' = Some TooLong
   \<and> Validate ''ezs4a2i'' = Some (InvalidCharacter CHR ''a'')
   \<and> Validate ''ailoailoailoa'' = Some TooLong
   \<and> (\<exists>b. Validate ''9qB'' = Some (InvalidCharacter b))
   \<and> (\<exists>s. EncodeWithPrecision 0 0 12 = Inr s \<and> Validate s = None)"
  using Validate_verdicts [of "''ezs42''" 12 0 0] Validate_verdicts [of "''0123456789bcd''" 12 0 0]
    Validate_verdicts [of "''ezs4a2i''" 12 0 0] Validate_verdicts [of "''9qB''" 12 0 0]
  by (simp add: Validate_def base32encoding_ValidByte_def alphabet_def)

text \<open>
  C10. For \<open>chars\<close> from 0 to 12, \<open>EncodeWithPrecision\<close> and \<open>ConvertIntToString\<close> return a
  string of exactly \<open>chars\<close> characters; for \<open>chars > 12\<close> the unsigned \<open>12 - chars\<close> wraps
  around to a bound beyond the 12 symbols and both panic on the slice expression.
\<close>

theorem precision_limit:
  "(chars \<le> 12 \<longrightarrow>
      (\<exists>s. EncodeWithPrecision lat lng chars = Inr s \<and> length s = unat chars)
      \<and> (\<exists>s. ConvertIntToString hash chars = Inr s \<and> length s = unat chars))
   \<and> (12 < chars \<longrightarrow>
      EncodeWithPrecision lat lng chars = Inl SliceBoundsOutOfRange
      \<and> ConvertIntToString hash chars = Inl SliceBoundsOutOfRange)"
proof (intro conjI impI)
  assume "chars \<le> 12"
  then obtain k where k: "k \<le> 12" "chars = of_nat k" "unat chars = k"
    by (rule word_le_12_cases)
  then show "\<exists>s. EncodeWithPrecision lat lng chars = Inr s \<and> length s = unat chars"
    by (simp add: EncodeWithPrecision_closed del: of_nat_mult)
  from k show "\<exists>s. ConvertIntToString hash chars = Inr s \<and> length s = unat chars"
    by (simp add: ConvertIntToString_closed)
next
  assume "12 < chars"
  then show "EncodeWithPrecision lat lng chars = Inl SliceBoundsOutOfRange"
    by (simp add: EncodeWithPrecision_def slice_from_panics)
next
  assume "12 < chars"
  then show "ConvertIntToString hash chars = Inl SliceBoundsOutOfRange"
    by (simp add: ConvertIntToString_def slice_from_panics)
qed

theorem precision_limit_witness:
  "(\<exists>s. EncodeWithPrecision 0 0 12 = Inr s \<and> length s = 12)
   \<and> (\<exists>s. ConvertIntToString 24 12 = Inr s \<and> length s = 12)
   \<and> EncodeWithPrecision 0 0 13 = Inl SliceBoundsOutOfRange
   \<and> ConvertIntToString 24 13 = Inl SliceBoundsOutOfRange"
  using precision_limit [of 12 0 0 24] precision_limit [of 13 0 0 24] by simp

end
